theory Spec2Isabelle
  imports Complex_Main "HOL-Library.Multiset"
begin

section \<open>Similarity-based classification: the data model\<close>

text \<open>
  The development models \<^verbatim>\<open>classify.py\<close> (class \<^verbatim>\<open>simClassMap\<close>) and
  \<^verbatim>\<open>PSP_minimal.py\<close> (function \<^verbatim>\<open>PSP\<close>).

  A NumPy array of one dimension is a list, a matrix is the list of its rows (all of one
  length). Similarity values are only ever compared (\<^verbatim>\<open>>=\<close>, \<^verbatim>\<open>argmax\<close>), so they are
  modelled as real numbers; indices, counts and class numbers are natural numbers, Python
  integers that may be negative are integers. Every exception the source can raise is a
  value of \<open>error\<close>.
\<close>

datatype error =
    ValueError
  | IndexError
  | OverflowError
  | ZeroDivisionError
  | ShapeMismatch nat nat

text \<open>
  One entry of \<^verbatim>\<open>self.index\<close>: the dictionary with the keys \<^verbatim>\<open>'class'\<close>,
  \<^verbatim>\<open>'prototype'\<close>, \<^verbatim>\<open>'count'\<close>, \<^verbatim>\<open>'members'\<close> and \<^verbatim>\<open>'fraction'\<close>. The type of the
  members is a parameter: an index array in the primary index, the tuple returned by
  \<^verbatim>\<open>np.where\<close> in the secondary one.
\<close>

record 'm class_entry =
  c_class :: nat
  c_prototype :: nat
  c_count :: nat
  c_members :: 'm
  c_fraction :: real

text \<open>
  The attributes of a \<^verbatim>\<open>simClassMap\<close> object. The attributes with the suffix 2 exist
  only once \<^verbatim>\<open>augment\<close> has set them: \<open>None\<close> is an attribute that does not exist.
\<close>

record 'd simClassMap =
  thresh :: real
  data :: "'d list"
  simmat :: "real list list"
  prototypes :: "nat list"
  members :: "nat list list"
  map' :: "nat list"
  totalcount :: nat
  index :: "nat list class_entry list"
  data2 :: "'d list option"
  simmat2 :: "real list list option"
  prototypes2 :: "nat list option"
  map2 :: "nat list option"
  totalcount2 :: "nat option"
  members2 :: "nat list list list option"
  index2 :: "nat list list class_entry list option"

text \<open>The local variables of the greedy pass, as they stand at the head of its loop.\<close>

record psp_state =
  mask :: "nat list list"
  indexMap :: "nat list"
  classPrototypes :: "nat list"
  classMembers :: "nat list list"
  classAssigned :: "nat list"
  unclassified :: int
  classno :: nat

section \<open>The NumPy operations the source uses\<close>

text \<open>
  \<^verbatim>\<open>np.argmax\<close> of a sequence: a linear scan that keeps the first position of the
  largest value seen; \<open>None\<close> is the \<^verbatim>\<open>ValueError\<close> on an empty sequence.
\<close>

fun argmax_scan :: "'a::linorder \<Rightarrow> nat \<Rightarrow> nat \<Rightarrow> 'a list \<Rightarrow> nat" where
  "argmax_scan b bi i [] = bi"
| "argmax_scan b bi i (x # xs) =
     (if b < x then argmax_scan x i (Suc i) xs else argmax_scan b bi (Suc i) xs)"

definition argmax :: "'a::linorder list \<Rightarrow> nat option" where
  "argmax xs = (case xs of [] \<Rightarrow> None | x # ys \<Rightarrow> Some (argmax_scan x 0 1 ys))"

text \<open>\<^verbatim>\<open>np.max\<close> of a non-empty sequence (the callers check for emptiness).\<close>

definition np_max :: "nat list \<Rightarrow> nat" where
  "np_max xs = fold max xs 0"

text \<open>\<^verbatim>\<open>np.nonzero(row)[0]\<close>: the positions of the entries that are not zero.\<close>

definition nonzero :: "nat list \<Rightarrow> nat list" where
  "nonzero row = filter (\<lambda>j. row ! j \<noteq> 0) [0..<length row]"

text \<open>\<^verbatim>\<open>np.where(a == v)[0]\<close>: the positions that hold \<open>v\<close>.\<close>

definition np_where :: "nat list \<Rightarrow> nat \<Rightarrow> nat list" where
  "np_where a v = filter (\<lambda>i. a ! i = v) [0..<length a]"

text \<open>\<^verbatim>\<open>np.delete(xs, m)\<close>: \<open>xs\<close> without the positions listed in \<open>m\<close> (all in range).\<close>

definition np_delete :: "'a list \<Rightarrow> nat list \<Rightarrow> 'a list" where
  "np_delete xs m = map ((!) xs) (filter (\<lambda>i. i \<notin> set m) [0..<length xs])"

text \<open>\<^verbatim>\<open>a[idxs] = v\<close>: the store of one value at every listed position (all in range).\<close>

definition store :: "nat list \<Rightarrow> nat list \<Rightarrow> nat \<Rightarrow> nat list" where
  "store a idxs v = fold (\<lambda>i b. b[i := v]) idxs a"

text \<open>
  \<^verbatim>\<open>np.argmax(A, axis=0)\<close> of a matrix given by its rows: for every column the first row
  with the largest entry. With no row there is nothing to reduce over and NumPy raises
  \<^verbatim>\<open>ValueError\<close>. \<^verbatim>\<open>np.argmax(A, axis=1)\<close> is the position of the largest entry of
  every row, and raises when the rows are empty.
\<close>

definition argmax_axis0 :: "real list list \<Rightarrow> nat list option" where
  "argmax_axis0 A =
     (case A of [] \<Rightarrow> None
      | r # rs \<Rightarrow> Some (map (\<lambda>j. argmax_scan (r ! j) 0 1 (map (\<lambda>q. q ! j) rs)) [0..<length r]))"

definition argmax_axis1 :: "real list list \<Rightarrow> nat list option" where
  "argmax_axis1 A =
     (if \<exists>r\<in>set A. r = [] then None
      else Some (map (\<lambda>r. argmax_scan (hd r) 0 1 (tl r)) A))"

text \<open>The slice \<^verbatim>\<open>xs[0:k]\<close> of Python: a negative \<open>k\<close> counts from the end.\<close>

definition slice_to :: "'a list \<Rightarrow> int \<Rightarrow> 'a list" where
  "slice_to xs k = (if 0 \<le> k then take (nat k) xs else take (nat (int (length xs) + k)) xs)"

section \<open>The greedy pass\<close>

text \<open>
  One turn of the loop \<^verbatim>\<open>while unclassified > 0\<close>, the same text in
  \<^verbatim>\<open>simClassMap.__init__\<close> and in \<^verbatim>\<open>PSP\<close>. The mask holds 0 and 1 (\<^verbatim>\<open>int8\<close>); its row
  sums are taken in the platform integer and cannot overflow. \<^verbatim>\<open>classAssigned\<close> is an
  \<^verbatim>\<open>int16\<close> array: the store of a class number above 32767 raises \<^verbatim>\<open>OverflowError\<close>
  (NumPy 2 refuses a Python integer out of the bounds of the array's type).
\<close>

definition PSP_step :: "psp_state \<Rightarrow> error + psp_state" where
  "PSP_step s =
     (case argmax (map sum_list (mask s)) of
        None \<Rightarrow> Inl ValueError
      | Some cp \<Rightarrow>
          if length (indexMap s) \<le> cp then Inl IndexError
          else
            let m = nonzero (mask s ! cp) in
            if \<exists>j\<in>set m. length (indexMap s) \<le> j \<or> length (mask s) \<le> j then Inl IndexError
            else
              let members = map ((!) (indexMap s)) m in
              if \<exists>i\<in>set members. length (classAssigned s) \<le> i then Inl IndexError
              else if 32767 < classno s + 1 then Inl OverflowError
              else Inr \<lparr>mask = map (\<lambda>r. np_delete r m) (np_delete (mask s) m),
                        indexMap = np_delete (indexMap s) m,
                        classPrototypes = classPrototypes s @ [indexMap s ! cp],
                        classMembers = classMembers s @ [members],
                        classAssigned = store (classAssigned s) members (classno s + 1),
                        unclassified = unclassified s - int (length m),
                        classno = classno s + 1\<rparr>)"

text \<open>
  The loop. It does not return when a turn finds a prototype whose mask row is empty
  and the class numbers never overflow; \<open>None\<close> is that case.
\<close>

partial_function (option) PSP_loop :: "psp_state \<Rightarrow> (error + psp_state) option" where
  "PSP_loop s =
     (if 0 < unclassified s
      then (case PSP_step s of Inl e \<Rightarrow> Some (Inl e) | Inr s' \<Rightarrow> PSP_loop s')
      else Some (Inr s))"

text \<open>The state before the first turn, for \<^verbatim>\<open>N = simmat.shape[0]\<close>.\<close>

definition PSP_start :: "real list list \<Rightarrow> real \<Rightarrow> psp_state" where
  "PSP_start sm t =
     \<lparr>mask = map (map (\<lambda>x. if t \<le> x then 1 else 0)) sm,
      indexMap = [0..<length sm],
      classPrototypes = [],
      classMembers = [],
      classAssigned = replicate (length sm) 0,
      unclassified = int (length sm),
      classno = 0\<rparr>"

text \<open>\<^verbatim>\<open>PSP(simmat, thresh)\<close> of \<^verbatim>\<open>PSP_minimal.py\<close>.\<close>

definition PSP :: "real list list \<Rightarrow> real \<Rightarrow> (error + nat list \<times> nat list \<times> nat list list) option" where
  "PSP sm t =
     (case PSP_loop (PSP_start sm t) of
        None \<Rightarrow> None
      | Some (Inl e) \<Rightarrow> Some (Inl e)
      | Some (Inr s) \<Rightarrow> Some (Inr (classAssigned s, classPrototypes s, classMembers s)))"

section \<open>The class index\<close>

text \<open>
  The loop \<^verbatim>\<open>for i in range(len(prototypes))\<close> that builds the list of class entries,
  written three times in the source (\<^verbatim>\<open>__init__\<close>, \<^verbatim>\<open>reassign\<close>, \<^verbatim>\<open>augment\<close>). It reads
  \<^verbatim>\<open>members[i]\<close>, which raises \<^verbatim>\<open>IndexError\<close> when the list of members is shorter than
  the list of prototypes, and divides by the total count.
\<close>

primrec index_loop :: "nat list \<Rightarrow> 'a list list \<Rightarrow> nat \<Rightarrow> nat list \<Rightarrow> error + 'a list class_entry list" where
  "index_loop ps ms tot [] = Inr []"
| "index_loop ps ms tot (i # js) =
     (if length ms \<le> i then Inl IndexError
      else if tot = 0 then Inl ZeroDivisionError
      else (case index_loop ps ms tot js of
              Inl e \<Rightarrow> Inl e
            | Inr cs \<Rightarrow>
                Inr (\<lparr>c_class = i + 1, c_prototype = ps ! i, c_count = length (ms ! i),
                      c_members = ms ! i,
                      c_fraction = real (length (ms ! i)) / real tot\<rparr> # cs)))"

definition class_index :: "nat list \<Rightarrow> 'a list list \<Rightarrow> nat \<Rightarrow> error + 'a list class_entry list" where
  "class_index ps ms tot = index_loop ps ms tot [0..<length ps]"

section \<open>The methods of \<^verbatim>\<open>simClassMap\<close>\<close>

text \<open>
  \<^verbatim>\<open>__init__(data, simmat, thresh)\<close> with the default flags (no printing, no checking of
  the inputs).
\<close>

definition simClassMap_init :: "'d list \<Rightarrow> real list list \<Rightarrow> real \<Rightarrow> (error + 'd simClassMap) option" where
  "simClassMap_init d sm t =
     (case PSP_loop (PSP_start sm t) of
        None \<Rightarrow> None
      | Some (Inl e) \<Rightarrow> Some (Inl e)
      | Some (Inr s) \<Rightarrow>
          (case class_index (classPrototypes s) (classMembers s) (length (classAssigned s)) of
             Inl e \<Rightarrow> Some (Inl e)
           | Inr ci \<Rightarrow>
               Some (Inr \<lparr>thresh = t, data = d, simmat = sm,
                          prototypes = classPrototypes s,
                          members = classMembers s,
                          map' = classAssigned s,
                          totalcount = length (classAssigned s),
                          index = ci,
                          data2 = None, simmat2 = None, prototypes2 = None, map2 = None,
                          totalcount2 = None, members2 = None, index2 = None\<rparr>)))"

text \<open>
  \<^verbatim>\<open>reassign()\<close>. The prototypes select rows of the matrix; an empty prototype array
  cannot be reduced over (and, when the data set is empty, is a float array that cannot
  index at all). The list of members is built for the classes \<open>1 .. max(map)\<close>, the index
  for the classes \<open>1 .. len(prototypes)\<close>.
\<close>

definition reassign :: "'d simClassMap \<Rightarrow> error + 'd simClassMap" where
  "reassign st =
     (if simmat st = [] then Inl IndexError
      else if \<exists>p\<in>set (prototypes st). length (simmat st) \<le> p then Inl IndexError
      else
        (case argmax_axis0 (map ((!) (simmat st)) (prototypes st)) of
           None \<Rightarrow> Inl ValueError
         | Some am \<Rightarrow>
             let mp = map Suc am in
             if mp = [] then Inl ValueError
             else
               let ms = map (\<lambda>i. np_where mp (i + 1)) [0..<np_max mp] in
               (case class_index (prototypes st) ms (totalcount st) of
                  Inl e \<Rightarrow> Inl e
                | Inr ci \<Rightarrow> Inr (st\<lparr>map' := mp, members := ms, index := ci\<rparr>))))"

text \<open>
  \<^verbatim>\<open>sort()\<close>. \<^verbatim>\<open>sorted(..., reverse=True)\<close> is stable: entries of equal count keep their
  order. The loop over the sorted entries appends \<^verbatim>\<open>self.prototypes[i]\<close> to the new
  prototype list, renumbers the entry, stores the new class number at its members and
  appends its members.
\<close>

definition sort' :: "'d simClassMap \<Rightarrow> error + 'd simClassMap" where
  "sort' st =
     (let ix = sort_key (\<lambda>c. - int (c_count c)) (index st) in
      if length (prototypes st) < length ix then Inl IndexError
      else if \<exists>c\<in>set ix. \<exists>i\<in>set (c_members c). length (map' st) \<le> i then Inl IndexError
      else Inr (st\<lparr>index := map (\<lambda>i. (ix ! i)\<lparr>c_class := i + 1\<rparr>) [0..<length ix],
                   map' := fold (\<lambda>i a. store a (c_members (ix ! i)) (i + 1)) [0..<length ix]
                             (replicate (length (map' st)) 0),
                   members := map c_members ix,
                   prototypes := map ((!) (prototypes st)) [0..<length ix]\<rparr>))"

text \<open>\<^verbatim>\<open>truncate(maxclasses)\<close>: the slice of the prototypes, then \<^verbatim>\<open>reassign\<close>, then \<^verbatim>\<open>sort\<close>.\<close>

definition truncate :: "int \<Rightarrow> 'd simClassMap \<Rightarrow> error + 'd simClassMap" where
  "truncate maxclasses st =
     (case reassign (st\<lparr>prototypes := slice_to (prototypes st) maxclasses\<rparr>) of
        Inl e \<Rightarrow> Inl e
      | Inr st' \<Rightarrow> sort' st')"

text \<open>
  \<^verbatim>\<open>augment(datafull, simmat2)\<close>. The method sets its attributes one after the other, so
  the result is the exception raised, if any, together with the object as the method
  leaves it. \<^verbatim>\<open>np.where(self.map2==iclass)\<close> is not indexed with \<^verbatim>\<open>[0]\<close> here: it is the
  tuple of one index array, modelled as a list of one list.
\<close>

definition augment :: "'d list \<Rightarrow> real list list \<Rightarrow> 'd simClassMap \<Rightarrow> error option \<times> 'd simClassMap" where
  "augment datafull sm2 st =
     (let M = length datafull in
      if M \<noteq> length sm2 then (Some (ShapeMismatch M (length sm2)), st)
      else
        let st1 = st\<lparr>data2 := Some datafull, simmat2 := Some sm2\<rparr> in
        (case argmax_axis0 sm2 of
           None \<Rightarrow> (Some ValueError, st1)
         | Some p2 \<Rightarrow>
             let st2 = st1\<lparr>prototypes2 := Some p2\<rparr> in
             (case argmax_axis1 sm2 of
                None \<Rightarrow> (Some ValueError, st2)
              | Some am \<Rightarrow>
                  let mp2 = map Suc am;
                      ms2 = map (\<lambda>iclass. [np_where mp2 iclass]) [1..<np_max mp2 + 1];
                      st3 = st2\<lparr>map2 := Some mp2, totalcount2 := Some M, members2 := Some ms2\<rparr>
                  in (case class_index p2 ms2 M of
                        Inl e \<Rightarrow> (Some e, st3)
                      | Inr ci \<Rightarrow> (None, st3\<lparr>index2 := Some ci\<rparr>)))))"

section \<open>Well-formed inputs and the partition property\<close>

text \<open>
  A well-formed similarity matrix: square, symmetric, entries between 0 and 1, ones on
  the diagonal.
\<close>

definition wellformed :: "real list list \<Rightarrow> bool" where
  "wellformed sm \<longleftrightarrow>
     (\<forall>i<length sm. length (sm ! i) = length sm) \<and>
     (\<forall>i<length sm. \<forall>j<length sm. sm ! i ! j = sm ! j ! i) \<and>
     (\<forall>i<length sm. \<forall>j<length sm. 0 \<le> sm ! i ! j \<and> sm ! i ! j \<le> 1) \<and>
     (\<forall>i<length sm. sm ! i ! i = 1)"

definition entry_of :: "nat list \<Rightarrow> 'a list list \<Rightarrow> nat \<Rightarrow> nat \<Rightarrow> 'a list class_entry" where
  "entry_of ps ms tot i =
     \<lparr>c_class = i + 1, c_prototype = ps ! i, c_count = length (ms ! i), c_members = ms ! i,
      c_fraction = real (length (ms ! i)) / real tot\<rparr>"

definition thresh_mask :: "real list list \<Rightarrow> real \<Rightarrow> nat list list" where
  "thresh_mask sm t = map (map (\<lambda>x. if t \<le> x then 1 else 0)) sm"

definition submask :: "nat list list \<Rightarrow> nat list \<Rightarrow> nat list list" where
  "submask M L = map (\<lambda>i. map (\<lambda>j. M ! i ! j) L) L"

definition degree :: "nat list list \<Rightarrow> nat list \<Rightarrow> nat \<Rightarrow> nat" where
  "degree M L i = length (filter (\<lambda>x. M ! i ! x \<noteq> 0) L)"

definition turn :: "nat list list \<Rightarrow> nat \<Rightarrow> psp_state \<Rightarrow> psp_state" where
  "turn M p s =
     \<lparr>mask = submask M (filter (\<lambda>x. M ! p ! x = 0) (indexMap s)),
      indexMap = filter (\<lambda>x. M ! p ! x = 0) (indexMap s),
      classPrototypes = classPrototypes s @ [p],
      classMembers = classMembers s @ [filter (\<lambda>x. M ! p ! x \<noteq> 0) (indexMap s)],
      classAssigned = store (classAssigned s) (filter (\<lambda>x. M ! p ! x \<noteq> 0) (indexMap s)) (classno s + 1),
      unclassified = int (length (filter (\<lambda>x. M ! p ! x = 0) (indexMap s))),
      classno = classno s + 1\<rparr>"

definition live_inv :: "nat list list \<Rightarrow> psp_state \<Rightarrow> bool" where
  "live_inv M s \<longleftrightarrow>
     mask s = submask M (indexMap s) \<and>
     sorted_wrt (<) (indexMap s) \<and>
     (\<forall>i\<in>set (indexMap s). i < length M) \<and>
     unclassified s = int (length (indexMap s)) \<and>
     length (classAssigned s) = length M"

definition mask01 :: "nat list list \<Rightarrow> bool" where
  "mask01 M \<longleftrightarrow> (\<forall>i<length M. \<forall>j<length M. M ! i ! j \<le> 1)"

definition diag1 :: "nat list list \<Rightarrow> bool" where
  "diag1 M \<longleftrightarrow> (\<forall>i<length M. M ! i ! i \<noteq> 0)"

definition part_inv :: "nat list list \<Rightarrow> psp_state \<Rightarrow> bool" where
  "part_inv M s \<longleftrightarrow>
     classno s = length (classMembers s) \<and>
     distinct (concat (classMembers s) @ indexMap s) \<and>
     set (concat (classMembers s)) \<union> set (indexMap s) = {..<length M} \<and>
     (\<forall>c<length (classMembers s). \<forall>i\<in>set (classMembers s ! c). classAssigned s ! i = c + 1)"

definition proto_inv :: "nat list list \<Rightarrow> psp_state \<Rightarrow> bool" where
  "proto_inv M s \<longleftrightarrow>
     length (classPrototypes s) = length (classMembers s) \<and>
     (\<forall>c<length (classPrototypes s).
        classPrototypes s ! c < length M \<and> classPrototypes s ! c \<in> set (classMembers s ! c)) \<and>
     (\<forall>c<length (classPrototypes s). \<forall>x\<in>set (indexMap s). M ! (classPrototypes s ! c) ! x = 0) \<and>
     (\<forall>c<length (classPrototypes s). \<forall>c'<c.
        M ! (classPrototypes s ! c') ! (classPrototypes s ! c) = 0)"

definition size_inv :: "nat list list \<Rightarrow> psp_state \<Rightarrow> bool" where
  "size_inv M s \<longleftrightarrow>
     sorted_wrt (\<ge>) (map length (classMembers s)) \<and>
     (\<forall>c<length (classMembers s). \<forall>x\<in>set (indexMap s).
        degree M (indexMap s) x \<le> length (classMembers s ! c))"

definition greedy_inv :: "nat list list \<Rightarrow> psp_state \<Rightarrow> bool" where
  "greedy_inv M s \<longleftrightarrow> live_inv M s \<and> part_inv M s \<and> proto_inv M s \<and> size_inv M s"

definition square :: "real list list \<Rightarrow> bool" where
  "square sm \<longleftrightarrow> (\<forall>i<length sm. length (sm ! i) = length sm)"

definition partition_ok :: "'d simClassMap \<Rightarrow> bool" where
  "partition_ok st \<longleftrightarrow>
     length (map' st) = length (simmat st) \<and>
     distinct (concat (members st)) \<and>
     set (concat (members st)) = {..<length (simmat st)} \<and>
     (\<forall>c<length (members st). \<forall>i\<in>set (members st ! c). map' st ! i = c + 1)"

definition separated :: "real list list \<Rightarrow> nat list \<Rightarrow> bool" where
  "separated sm ps \<longleftrightarrow>
     (\<forall>c<length ps. ps ! c < length sm) \<and>
     (\<forall>c<length ps. \<forall>c'<c. sm ! (ps ! c') ! (ps ! c) < 1)"

definition state_inv :: "real list list \<Rightarrow> 'd simClassMap \<Rightarrow> bool" where
  "state_inv sm st \<longleftrightarrow>
     simmat st = sm \<and> totalcount st = length sm \<and> partition_ok st \<and>
     length (prototypes st) = length (members st) \<and>
     map c_members (index st) = members st \<and>
     separated sm (prototypes st)"

definition exact_partition :: "nat \<Rightarrow> nat list list \<Rightarrow> nat list \<Rightarrow> bool" where
  "exact_partition n ms mp \<longleftrightarrow>
     length mp = n \<and>
     (\<forall>i<n. \<exists>!c. c < length ms \<and> i \<in> set (ms ! c)) \<and>
     (\<forall>c<length ms. distinct (ms ! c) \<and> set (ms ! c) \<subseteq> {..<n}) \<and>
     (\<forall>i<n. \<forall>c<length ms. i \<in> set (ms ! c) \<longleftrightarrow> mp ! i = c + 1)"

inductive reachable :: "real list list \<Rightarrow> real \<Rightarrow> 'd simClassMap \<Rightarrow> bool"
  for sm :: "real list list" and t :: real where
  created: "simClassMap_init d sm t = Some (Inr st) \<Longrightarrow> reachable sm t st"
| reassigned: "reachable sm t st \<Longrightarrow> reassign st = Inr st' \<Longrightarrow> reachable sm t st'"
| sorted: "reachable sm t st \<Longrightarrow> sort' st = Inr st' \<Longrightarrow> reachable sm t st'"
| truncated: "reachable sm t st \<Longrightarrow> truncate k st = Inr st' \<Longrightarrow> reachable sm t st'"
| augmented: "reachable sm t st \<Longrightarrow> augment df sm2 st = (e, st') \<Longrightarrow> reachable sm t st'"

section \<open>Concrete inputs\<close>

text \<open>
  The scenario of the specification: four points, \<open>sim[0][1] = 0.9\<close>, \<open>sim[2][3] = 0.8\<close>,
  every other pair 0.1.
\<close>

definition scenario_simmat :: "real list list" where
  "scenario_simmat =
     [[1, 9/10, 1/10, 1/10], [9/10, 1, 1/10, 1/10], [1/10, 1/10, 1, 8/10], [1/10, 1/10, 8/10, 1]]"

text \<open>
  Four points where the greedy pass puts 1 and 2 with prototype 0 (similarity 0.6) although
  they are closer to point 3 (similarity 0.9), the second prototype: \<^verbatim>\<open>reassign\<close> moves
  them, and the second class becomes the larger one.
\<close>

definition swap_simmat :: "real list list" where
  "swap_simmat =
     [[1, 6/10, 6/10, 1/10], [6/10, 1, 1/10, 9/10], [6/10, 1/10, 1, 9/10], [1/10, 9/10, 9/10, 1]]"

definition swap_created :: "unit simClassMap" where
  "swap_created =
     \<lparr>thresh = 1/2, data = [], simmat = swap_simmat, prototypes = [0, 3],
      members = [[0, 1, 2], [3]], map' = [1, 1, 1, 2], totalcount = 4,
      index = [\<lparr>c_class = 1, c_prototype = 0, c_count = 3, c_members = [0, 1, 2], c_fraction = 3/4\<rparr>,
               \<lparr>c_class = 2, c_prototype = 3, c_count = 1, c_members = [3], c_fraction = 1/4\<rparr>],
      data2 = None, simmat2 = None, prototypes2 = None, map2 = None,
      totalcount2 = None, members2 = None, index2 = None\<rparr>"

definition swap_reassigned :: "unit simClassMap" where
  "swap_reassigned =
     swap_created
       \<lparr>map' := [1, 2, 2, 2], members := [[0], [1, 2, 3]],
        index := [\<lparr>c_class = 1, c_prototype = 0, c_count = 1, c_members = [0], c_fraction = 1/4\<rparr>,
                  \<lparr>c_class = 2, c_prototype = 3, c_count = 3, c_members = [1, 2, 3], c_fraction = 3/4\<rparr>]\<rparr>"

definition swap_sorted :: "unit simClassMap" where
  "swap_sorted =
     swap_created
       \<lparr>map' := [2, 1, 1, 1], members := [[1, 2, 3], [0]],
        index := [\<lparr>c_class = 1, c_prototype = 3, c_count = 3, c_members = [1, 2, 3], c_fraction = 3/4\<rparr>,
                  \<lparr>c_class = 2, c_prototype = 0, c_count = 1, c_members = [0], c_fraction = 1/4\<rparr>]\<rparr>"


section \<open>Evaluation\<close>

lemma PSP_loop_stop: "\<not> 0 < unclassified s \<Longrightarrow> PSP_loop s = Some (Inr s)"
  by (subst PSP_loop.simps) simp

lemma PSP_loop_turn:
  "0 < unclassified s \<Longrightarrow>
   PSP_loop s = (case PSP_step s of Inl e \<Rightarrow> Some (Inl e) | Inr s' \<Rightarrow> PSP_loop s')"
  by (subst PSP_loop.simps) simp

lemmas greedy_eval =
  PSP_def simClassMap_init_def PSP_start_def PSP_loop_stop PSP_loop_turn PSP_step_def
  argmax_def nonzero_def np_delete_def store_def class_index_def Let_def

lemmas method_eval =
  reassign_def sort'_def truncate_def augment_def argmax_axis0_def argmax_axis1_def
  np_where_def np_max_def store_def class_index_def slice_to_def Let_def

lemma swap_created_eval: "simClassMap_init [] swap_simmat (1/2) = Some (Inr swap_created)"
  by (simp add: swap_simmat_def swap_created_def greedy_eval)

lemma swap_reassigned_eval: "reassign swap_created = Inr swap_reassigned"
  by (simp add: swap_simmat_def swap_created_def swap_reassigned_def method_eval)

lemma swap_sorted_eval: "sort' swap_reassigned = Inr swap_sorted"
  by (simp add: swap_simmat_def swap_created_def swap_reassigned_def swap_sorted_def method_eval)

lemma argmax_scan_spec:
  assumes "drop i zs = xs" "i \<le> length zs" "bi < i"  "b = zs ! bi"
    "\<forall>j<i. zs ! j \<le> zs ! bi" "\<forall>j<bi. zs ! j < zs ! bi"
  shows "argmax_scan b bi i xs < length zs \<and>
         (\<forall>j<length zs. zs ! j \<le> zs ! argmax_scan b bi i xs) \<and>
         (\<forall>j<argmax_scan b bi i xs. zs ! j < zs ! argmax_scan b bi i xs)"
  using assms
proof (induction xs arbitrary: b bi i)
  case Nil
  then have "length zs = i" by simp
  with Nil show ?case by simp
next
  case (Cons x xs)
  from Cons.prems(1) have il: "i < length zs"
    by (metis drop_all leI list.distinct(1))
  from Cons.prems(1) il have x: "x = zs ! i"
    by (metis Cons_nth_drop_Suc list.inject)
  from Cons.prems(1) il have dr: "drop (Suc i) zs = xs"
    by (metis Cons_nth_drop_Suc list.inject)
  show ?case
  proof (cases "b < x")
    case True
    have a: "\<forall>j<Suc i. zs ! j \<le> zs ! i"
      using Cons.prems(4,5) True x by (auto simp: less_Suc_eq intro: less_imp_le order.trans)
    have b: "\<forall>j<i. zs ! j < zs ! i"
      using Cons.prems(4,5) True x by (auto intro: le_less_trans)
    from Cons.IH[of "Suc i" i x, OF dr _ _ x a b] il True
    show ?thesis by simp
  next
    case False
    have a: "\<forall>j<Suc i. zs ! j \<le> zs ! bi"
      using Cons.prems(4,5) False x by (auto simp: less_Suc_eq)
    from Cons.IH[of "Suc i" bi b, OF dr _ _ Cons.prems(4) a Cons.prems(6)] il False Cons.prems(3)
    show ?thesis by simp
  qed
qed

lemma argmax_Some:
  assumes "xs \<noteq> []"
  obtains r where "argmax xs = Some r" "r < length xs"
    "\<forall>j<length xs. xs ! j \<le> xs ! r" "\<forall>j<r. xs ! j < xs ! r"
proof -
  from assms obtain x ys where xs: "xs = x # ys" by (cases xs) auto
  have "argmax_scan x 0 1 ys < length xs \<and>
         (\<forall>j<length xs. xs ! j \<le> xs ! argmax_scan x 0 1 ys) \<and>
         (\<forall>j<argmax_scan x 0 1 ys. xs ! j < xs ! argmax_scan x 0 1 ys)"
    by (rule argmax_scan_spec) (simp_all add: xs)
  then show ?thesis using that[of "argmax_scan x 0 1 ys"] by (simp add: argmax_def xs)
qed

lemma argmax_None: "argmax xs = None \<longleftrightarrow> xs = []"
  by (simp add: argmax_def split: list.splits)

lemma np_delete_filter:
  "np_delete (map f ys) (filter (\<lambda>j. Q (ys ! j)) [0..<length ys]) = map f (filter (\<lambda>y. \<not> Q y) ys)"
proof -
  have a: "filter (\<lambda>i. i \<notin> set (filter (\<lambda>j. Q (ys ! j)) [0..<length ys])) [0..<length ys]
        = filter (\<lambda>i. \<not> Q (ys ! i)) [0..<length ys]"
    by (rule filter_cong) auto
  have b: "map ((!) (map f ys)) (filter (\<lambda>i. \<not> Q (ys ! i)) [0..<length ys])
        = map (\<lambda>i. f (ys ! i)) (filter (\<lambda>i. \<not> Q (ys ! i)) [0..<length ys])"
    by (rule map_cong) auto
  have c: "map (\<lambda>i. f (ys ! i)) (filter (\<lambda>i. \<not> Q (ys ! i)) [0..<length ys])
        = map f (filter (\<lambda>y. \<not> Q y) (map ((!) ys) [0..<length ys]))"
    by (simp add: filter_map comp_def)
  show ?thesis
    unfolding np_delete_def length_map a b c by (simp add: map_nth)
qed

lemma np_delete_filter_id:
  "np_delete ys (filter (\<lambda>j. Q (ys ! j)) [0..<length ys]) = filter (\<lambda>y. \<not> Q y) ys"
  using np_delete_filter[of "\<lambda>x. x" ys Q] by simp

lemma select_filter_positions:
  "map ((!) ys) (filter (\<lambda>j. Q (ys ! j)) [0..<length ys]) = filter Q ys"
proof -
  have "filter Q (map ((!) ys) [0..<length ys]) = map ((!) ys) (filter (\<lambda>j. Q (ys ! j)) [0..<length ys])"
    by (simp add: filter_map comp_def)
  then show ?thesis by (simp add: map_nth)
qed

lemma store_length [simp]: "length (store a idxs v) = length a"
  unfolding store_def by (induction idxs arbitrary: a) auto

lemma store_nth:
  "i < length a \<Longrightarrow> store a idxs v ! i = (if i \<in> set idxs then v else a ! i)"
  unfolding store_def
proof (induction idxs arbitrary: a)
  case Nil
  then show ?case by simp
next
  case (Cons j js)
  show ?case
  proof (cases "i \<in> set js")
    case True
    with Cons.IH[of "a[j := v]"] Cons.prems show ?thesis by simp
  next
    case False
    with Cons.IH[of "a[j := v]"] Cons.prems show ?thesis
      by (cases "i = j") (simp_all add: nth_list_update)
  qed
qed

lemma fold_max_ge_init: "(a::nat) \<le> fold max xs a"
  by (induction xs arbitrary: a) (auto intro: order.trans[OF max.cobounded2])

lemma fold_max_ge_elem: "x \<in> set xs \<Longrightarrow> (x::nat) \<le> fold max xs a"
proof (induction xs arbitrary: a)
  case Nil
  then show ?case by simp
next
  case (Cons y ys)
  show ?case
  proof (cases "x = y")
    case True
    have "y \<le> max y a" by simp
    also have "\<dots> \<le> fold max ys (max y a)" by (rule fold_max_ge_init)
    finally show ?thesis using True by simp
  next
    case False
    with Cons show ?thesis by simp
  qed
qed

lemma fold_max_le: "(a::nat) \<le> b \<Longrightarrow> \<forall>x\<in>set xs. x \<le> b \<Longrightarrow> fold max xs a \<le> b"
  by (induction xs arbitrary: a) auto

lemma np_max_ge: "x \<in> set xs \<Longrightarrow> x \<le> np_max xs"
  unfolding np_max_def by (rule fold_max_ge_elem)

lemma np_max_le: "\<forall>x\<in>set xs. x \<le> b \<Longrightarrow> np_max xs \<le> b"
  unfolding np_max_def by (rule fold_max_le) simp_all

lemma np_max_eq: "b \<in> set xs \<Longrightarrow> \<forall>x\<in>set xs. x \<le> b \<Longrightarrow> np_max xs = b"
  by (simp add: np_max_ge np_max_le order.antisym)

lemma index_loop_error:
  "index_loop ps ms tot js = Inl e \<Longrightarrow> e = IndexError \<or> e = ZeroDivisionError"
  by (induction js) (auto split: if_splits sum.splits)

lemma index_loop_Inr:
  "index_loop ps ms tot js = Inr ci \<Longrightarrow>
     ci = map (entry_of ps ms tot) js \<and> (\<forall>i\<in>set js. i < length ms)"
  by (induction js arbitrary: ci) (auto simp: entry_of_def split: if_splits sum.splits)

lemma index_loop_ok:
  "\<forall>i\<in>set js. i < length ms \<Longrightarrow> 0 < tot \<Longrightarrow>
     index_loop ps ms tot js = Inr (map (entry_of ps ms tot) js)"
  by (induction js) (auto simp: entry_of_def)

lemma class_index_ok:
  "length ps \<le> length ms \<Longrightarrow> 0 < tot \<Longrightarrow>
     class_index ps ms tot = Inr (map (entry_of ps ms tot) [0..<length ps])"
  unfolding class_index_def by (rule index_loop_ok) auto

lemma class_index_Inr:
  "class_index ps ms tot = Inr ci \<Longrightarrow>
     ci = map (entry_of ps ms tot) [0..<length ps] \<and> length ps \<le> length ms"
  unfolding class_index_def
  by (drule index_loop_Inr) (auto simp: not_less[symmetric])

lemma class_index_error:
  "class_index ps ms tot = Inl e \<Longrightarrow> e = IndexError \<or> e = ZeroDivisionError"
  unfolding class_index_def by (rule index_loop_error)

lemma augment_mismatch:
  "length df \<noteq> length sm2 \<Longrightarrow>
     augment df sm2 st = (Some (ShapeMismatch (length df) (length sm2)), st)"
  by (simp add: augment_def)

lemma augment_match_error:
  assumes "length df = length sm2"
  shows "fst (augment df sm2 st) \<noteq> Some (ShapeMismatch a b)"
proof -
  have "\<And>p2 ms2 M. (case class_index p2 ms2 M of Inl e \<Rightarrow> (Some e, x)
                      | Inr ci \<Rightarrow> (None, y ci)) \<noteq> (Some (ShapeMismatch a b), z)" for x y z
   by (auto split: sum.splits dest: class_index_error)
  then show ?thesis
  using assms by (auto simp: augment_def Let_def split: option.splits sum.splits dest: class_index_error)
qed

text \<open>
  C8. \<^verbatim>\<open>augment\<close> raises the shape-mismatch error, which carries both dimensions, if
  and only if the number of rows of the data differs from the number of rows of the
  matrix; when it does, the object is left exactly as it was: the primary partition is
  unchanged and no secondary attribute is set.
\<close>

theorem augment_shape_check:
  "(fst (augment df sm2 st) = Some (ShapeMismatch a b)
      \<longleftrightarrow> a = length df \<and> b = length sm2 \<and> length df \<noteq> length sm2) \<and>
   (length df \<noteq> length sm2 \<longrightarrow> snd (augment df sm2 st) = st)"
proof (cases "length df = length sm2")
  case True
  then show ?thesis using augment_match_error[OF True] by simp
next
  case False
  then show ?thesis by (auto simp: augment_mismatch)
qed

theorem augment_shape_check_witness:
  "fst (augment [(), ()] [[1]] swap_created) = Some (ShapeMismatch 2 1) \<and>
   snd (augment [(), ()] [[1]] swap_created) = swap_created"
  using augment_shape_check[of "[(), ()]" "[[1]]" swap_created 2 1] by simp

lemma reassign_Inr:
  assumes "reassign st = Inr st'"
  obtains am where
    "simmat st \<noteq> []" "\<forall>p\<in>set (prototypes st). p < length (simmat st)"
    "argmax_axis0 (map ((!) (simmat st)) (prototypes st)) = Some am" "am \<noteq> []"
    "class_index (prototypes st) (map (\<lambda>i. np_where (map Suc am) (i + 1)) [0..<np_max (map Suc am)])
       (totalcount st)
     = Inr (index st')"
    "st' = st\<lparr>map' := map Suc am,
              members := map (\<lambda>i. np_where (map Suc am) (i + 1)) [0..<np_max (map Suc am)],
              index := index st'\<rparr>"
  using assms unfolding reassign_def Let_def
  by (auto simp: not_le split: if_splits option.splits sum.splits)

lemma reassign_twice:
  assumes "reassign st = Inr st'"
  shows "reassign st' = Inr st'"
proof -
  from assms obtain am where f:
    "simmat st \<noteq> []" "\<forall>p\<in>set (prototypes st). p < length (simmat st)"
    "argmax_axis0 (map ((!) (simmat st)) (prototypes st)) = Some am" "am \<noteq> []"
    "class_index (prototypes st) (map (\<lambda>i. np_where (map Suc am) (i + 1)) [0..<np_max (map Suc am)])
       (totalcount st)
     = Inr (index st')"
    and st': "st' = st\<lparr>map' := map Suc am,
              members := map (\<lambda>i. np_where (map Suc am) (i + 1)) [0..<np_max (map Suc am)],
              index := index st'\<rparr>"
    by (rule reassign_Inr)
  have g: "simmat st' = simmat st" "prototypes st' = prototypes st" "totalcount st' = totalcount st"
    by (subst st', simp)+
  have "reassign st' = Inr (st'\<lparr>map' := map Suc am,
              members := map (\<lambda>i. np_where (map Suc am) (i + 1)) [0..<np_max (map Suc am)],
              index := index st'\<rparr>)"
    unfolding reassign_def g using f by (simp add: Let_def not_le[symmetric])
  also have "\<dots> = Inr st'"
    by (subst (3) st', subst st', simp)
  finally show ?thesis .
qed

text \<open>
  C7. \<^verbatim>\<open>reassign\<close> is idempotent: after a call that has returned, a second call
  returns too and leaves the assignment map (and the whole object) as the first call
  left it.
\<close>

theorem reassign_idempotent:
  assumes "reassign st = Inr st'"
  shows "\<exists>st''. reassign st' = Inr st'' \<and> map' st'' = map' st' \<and> st'' = st'"
  using reassign_twice[OF assms] by simp

theorem reassign_idempotent_witness:
  "reassign swap_created = Inr swap_reassigned \<and>
   reassign swap_reassigned = Inr swap_reassigned"
  using reassign_idempotent[OF swap_reassigned_eval] swap_reassigned_eval by simp

lemma nonzero_map:
  "nonzero (map f L) = filter (\<lambda>j. f (L ! j) \<noteq> 0) [0..<length L]"
  unfolding nonzero_def length_map by (rule filter_cong) auto

lemma sum_list_01:
  "\<forall>x\<in>set L. f x \<le> (1::nat) \<Longrightarrow> sum_list (map f L) = length (filter (\<lambda>x. f x \<noteq> 0) L)"
proof (induction L)
  case Nil
  then show ?case by simp
next
  case (Cons a L)
  then have "f a = 0 \<or> f a = 1" by auto
  with Cons show ?case by auto
qed

lemma row_sum_degree:
  assumes "mask01 M" "\<forall>i\<in>set L. i < length M" "i \<in> set L"
  shows "sum_list (map (\<lambda>j. M ! i ! j) L) = degree M L i"
  unfolding degree_def
  by (rule sum_list_01) (use assms in \<open>auto simp: mask01_def\<close>)

lemma PSP_step_turn:
  assumes inv: "live_inv M s" and pos: "0 < unclassified s" and m01: "mask01 M"
  obtains cp where
    "cp < length (indexMap s)"
    "\<forall>j<length (indexMap s). degree M (indexMap s) (indexMap s ! j) \<le> degree M (indexMap s) (indexMap s ! cp)"
    "\<forall>j<cp. degree M (indexMap s) (indexMap s ! j) < degree M (indexMap s) (indexMap s ! cp)"
    "PSP_step s = (if 32767 < classno s + 1 then Inl OverflowError
                   else Inr (turn M (indexMap s ! cp) s))"
proof -
  let ?L = "indexMap s"
  from inv have mk: "mask s = submask M ?L" and inM: "\<forall>i\<in>set ?L. i < length M"
    and lenA: "length (classAssigned s) = length M" and unc: "unclassified s = int (length ?L)"
    by (simp_all add: live_inv_def)
  from pos unc have ne: "?L \<noteq> []" by auto
  have lm: "length (mask s) = length ?L" unfolding mk submask_def by simp
  have sums: "map sum_list (mask s) = map (degree M ?L) ?L"
  proof (rule nth_equalityI)
    show "length (map sum_list (mask s)) = length (map (degree M ?L) ?L)" by (simp add: lm)
  next
    fix i assume "i < length (map sum_list (mask s))"
    then have i: "i < length ?L" by (simp add: lm)
    then have "mask s ! i = map (\<lambda>j. M ! (?L ! i) ! j) ?L"
      by (subst mk) (simp add: submask_def)
    then have "sum_list (mask s ! i) = degree M ?L (?L ! i)"
      using row_sum_degree[OF m01 inM, of "?L ! i"] i by simp
    then show "map sum_list (mask s) ! i = map (degree M ?L) ?L ! i"
      using i by (simp add: lm)
  qed
  from ne have "map (degree M ?L) ?L \<noteq> []" by simp
  then obtain cp where cp: "argmax (map (degree M ?L) ?L) = Some cp" "cp < length (map (degree M ?L) ?L)"
    "\<forall>j<length (map (degree M ?L) ?L). map (degree M ?L) ?L ! j \<le> map (degree M ?L) ?L ! cp"
    "\<forall>j<cp. map (degree M ?L) ?L ! j < map (degree M ?L) ?L ! cp"
    by (rule argmax_Some)
  from cp(2) have cpl: "cp < length ?L" by simp
  let ?p = "?L ! cp"
  let ?m = "nonzero (mask s ! cp)"
  have A: "argmax (map sum_list (mask s)) = Some cp" unfolding sums by (rule cp(1))
  have B: "\<not> length ?L \<le> cp" using cpl by simp
  have row: "mask s ! cp = map (\<lambda>j. M ! ?p ! j) ?L"
    using cpl by (subst mk) (simp add: submask_def)
  have m: "?m = filter (\<lambda>j. M ! ?p ! (?L ! j) \<noteq> 0) [0..<length ?L]"
    unfolding row by (rule nonzero_map)
  have C: "\<not> (\<exists>j\<in>set ?m. length ?L \<le> j \<or> length (mask s) \<le> j)"
    unfolding m lm by auto
  have D: "map ((!) ?L) ?m = filter (\<lambda>x. M ! ?p ! x \<noteq> 0) ?L"
    unfolding m by (rule select_filter_positions)
  have E: "\<not> (\<exists>i\<in>set (filter (\<lambda>x. M ! ?p ! x \<noteq> 0) ?L). length (classAssigned s) \<le> i)"
    unfolding lenA using inM by auto
  have G: "np_delete ?L ?m = filter (\<lambda>x. M ! ?p ! x = 0) ?L"
    unfolding m using np_delete_filter_id[of ?L "\<lambda>x. M ! ?p ! x \<noteq> 0"] by simp
  have dM: "np_delete (mask s) ?m = map (\<lambda>i. map (\<lambda>j. M ! i ! j) ?L) (filter (\<lambda>x. M ! ?p ! x = 0) ?L)"
  proof -
    have "np_delete (map (\<lambda>i. map (\<lambda>j. M ! i ! j) ?L) ?L) (filter (\<lambda>j. M ! ?p ! (?L ! j) \<noteq> 0) [0..<length ?L])
          = map (\<lambda>i. map (\<lambda>j. M ! i ! j) ?L) (filter (\<lambda>x. \<not> M ! ?p ! x \<noteq> 0) ?L)"
      by (rule np_delete_filter)
    then show ?thesis unfolding m by (subst mk) (simp add: submask_def)
  qed
  have dR: "np_delete (map (\<lambda>j. M ! i ! j) ?L) ?m = map (\<lambda>j. M ! i ! j) (filter (\<lambda>x. M ! ?p ! x = 0) ?L)" for i
    unfolding m using np_delete_filter[of "\<lambda>j. M ! i ! j" ?L "\<lambda>x. M ! ?p ! x \<noteq> 0"] by simp
  have F: "map (\<lambda>r. np_delete r ?m) (np_delete (mask s) ?m) = submask M (filter (\<lambda>x. M ! ?p ! x = 0) ?L)"
    unfolding dM submask_def map_map comp_def dR ..
  have lenm: "length ?m = length (filter (\<lambda>x. M ! ?p ! x \<noteq> 0) ?L)"
    using arg_cong[OF D, of length] by simp
  have "length (filter (\<lambda>x. M ! ?p ! x \<noteq> 0) ?L) + length (filter (\<lambda>x. \<not> M ! ?p ! x \<noteq> 0) ?L) = length ?L"
    by (rule sum_length_filter_compl)
  then have H: "unclassified s - int (length ?m) = int (length (filter (\<lambda>x. M ! ?p ! x = 0) ?L))"
    unfolding unc lenm by simp
  have step: "PSP_step s = (if 32767 < classno s + 1 then Inl OverflowError else Inr (turn M ?p s))"
    unfolding PSP_step_def Let_def A option.case D F G H turn_def
    using B C E by (simp only: if_False)
  show ?thesis
    using that[of cp] cpl cp(3,4) step by simp
qed

lemma turn_simps [simp]:
  "indexMap (turn M p s) = filter (\<lambda>x. M ! p ! x = 0) (indexMap s)"
  "mask (turn M p s) = submask M (filter (\<lambda>x. M ! p ! x = 0) (indexMap s))"
  "classPrototypes (turn M p s) = classPrototypes s @ [p]"
  "classMembers (turn M p s) = classMembers s @ [filter (\<lambda>x. M ! p ! x \<noteq> 0) (indexMap s)]"
  "classAssigned (turn M p s) =
     store (classAssigned s) (filter (\<lambda>x. M ! p ! x \<noteq> 0) (indexMap s)) (classno s + 1)"
  "unclassified (turn M p s) = int (length (filter (\<lambda>x. M ! p ! x = 0) (indexMap s)))"
  "classno (turn M p s) = classno s + 1"
  by (simp_all add: turn_def)

lemma live_inv_turn:
  assumes "live_inv M s"
  shows "live_inv M (turn M p s)"
  using assms unfolding live_inv_def
  by (simp add: sorted_wrt_filter)

lemma turn_progress:
  assumes "p \<in> set (indexMap s)" "M ! p ! p \<noteq> 0"
  shows "length (indexMap (turn M p s)) < length (indexMap s)"
  using assms by (simp add: length_filter_less)

lemma part_inv_turn:
  assumes live: "live_inv M s" and part: "part_inv M s"
  shows "part_inv M (turn M p s)"
proof -
  let ?L = "indexMap s" and ?ms = "classMembers s"
  let ?new = "filter (\<lambda>x. M ! p ! x \<noteq> 0) ?L"
  from part have cn: "classno s = length ?ms"
    and dist: "distinct (concat ?ms @ ?L)"
    and cover: "set (concat ?ms) \<union> set ?L = {..<length M}"
    and asg: "\<forall>c<length ?ms. \<forall>i\<in>set (?ms ! c). classAssigned s ! i = c + 1"
    by (simp_all add: part_inv_def)
  from live have lenA: "length (classAssigned s) = length M" by (simp add: live_inv_def)
  have d': "distinct (concat (?ms @ [?new]) @ filter (\<lambda>x. M ! p ! x = 0) ?L)"
    using dist by auto
  have c': "set (concat (?ms @ [?new])) \<union> set (filter (\<lambda>x. M ! p ! x = 0) ?L) = {..<length M}"
    using cover by auto
  have a': "\<forall>c<length (?ms @ [?new]). \<forall>i\<in>set ((?ms @ [?new]) ! c).
              store (classAssigned s) ?new (classno s + 1) ! i = c + 1"
  proof (intro allI impI ballI)
    fix c i assume c: "c < length (?ms @ [?new])" and i: "i \<in> set ((?ms @ [?new]) ! c)"
    show "store (classAssigned s) ?new (classno s + 1) ! i = c + 1"
    proof (cases "c < length ?ms")
      case True
      with i have im: "i \<in> set (?ms ! c)" by (simp add: nth_append)
      with True have ic: "i \<in> set (concat ?ms)" by auto
      with dist have "i \<notin> set ?L" by auto
      then have notin: "i \<notin> set ?new" by simp
      from ic cover have "i < length (classAssigned s)" unfolding lenA by auto
      then have "store (classAssigned s) ?new (classno s + 1) ! i =
                 (if i \<in> set ?new then classno s + 1 else classAssigned s ! i)"
        by (rule store_nth)
      then have "store (classAssigned s) ?new (classno s + 1) ! i = classAssigned s ! i"
        by (simp only: notin if_False)
      with asg True im show ?thesis by simp
    next
      case False
      with c have ceq: "c = length ?ms" by simp
      with i have inew: "i \<in> set ?new" by (simp add: nth_append)
      then have "i \<in> set ?L" by simp
      with cover have "i < length (classAssigned s)" unfolding lenA by auto
      then have "store (classAssigned s) ?new (classno s + 1) ! i =
                 (if i \<in> set ?new then classno s + 1 else classAssigned s ! i)"
        by (rule store_nth)
      then show ?thesis by (simp only: inew if_True cn ceq)
    qed
  qed
  show ?thesis
    unfolding part_inv_def turn_simps using cn d' c' a' by simp
qed

lemma proto_inv_turn:
  assumes proto: "proto_inv M s" and p: "p \<in> set (indexMap s)" "p < length M" "M ! p ! p \<noteq> 0"
  shows "proto_inv M (turn M p s)"
proof -
  let ?L = "indexMap s" and ?ms = "classMembers s" and ?ps = "classPrototypes s"
  let ?new = "filter (\<lambda>x. M ! p ! x \<noteq> 0) ?L"
  from proto have len: "length ?ps = length ?ms"
    and own: "\<forall>c<length ?ps. ?ps ! c < length M \<and> ?ps ! c \<in> set (?ms ! c)"
    and live0: "\<forall>c<length ?ps. \<forall>x\<in>set ?L. M ! (?ps ! c) ! x = 0"
    and sep: "\<forall>c<length ?ps. \<forall>c'<c. M ! (?ps ! c') ! (?ps ! c) = 0"
    by (simp_all add: proto_inv_def)
  have 1: "length (?ps @ [p]) = length (?ms @ [?new])" using len by simp
  have 2: "\<forall>c<length (?ps @ [p]). (?ps @ [p]) ! c < length M \<and> (?ps @ [p]) ! c \<in> set ((?ms @ [?new]) ! c)"
    using own p len by (auto simp: nth_append less_Suc_eq)
  have 3: "\<forall>c<length (?ps @ [p]). \<forall>x\<in>set (filter (\<lambda>x. M ! p ! x = 0) ?L). M ! ((?ps @ [p]) ! c) ! x = 0"
    using live0 by (auto simp: nth_append less_Suc_eq)
  have 4: "\<forall>c<length (?ps @ [p]). \<forall>c'<c. M ! ((?ps @ [p]) ! c') ! ((?ps @ [p]) ! c) = 0"
  proof (intro allI impI)
    fix c c' assume c: "c < length (?ps @ [p])" and c': "c' < c"
    show "M ! ((?ps @ [p]) ! c') ! ((?ps @ [p]) ! c) = 0"
    proof (cases "c < length ?ps")
      case True
      with c' sep show ?thesis by (simp add: nth_append)
    next
      case False
      with c have "c = length ?ps" by simp
      with c' live0 p(1) show ?thesis by (simp add: nth_append)
    qed
  qed
  show ?thesis unfolding proto_inv_def turn_simps using 1 2 3 4 by blast
qed

lemma degree_filter_le: "degree M (filter P L) x \<le> degree M L x"
proof -
  have "filter (\<lambda>y. M ! x ! y \<noteq> 0) (filter P L) = filter P (filter (\<lambda>y. M ! x ! y \<noteq> 0) L)"
    by (induction L) auto
  moreover have "length (filter P (filter (\<lambda>y. M ! x ! y \<noteq> 0) L))
                   \<le> length (filter (\<lambda>y. M ! x ! y \<noteq> 0) L)"
    by (rule length_filter_le)
  ultimately show ?thesis unfolding degree_def by (simp only:)
qed

lemma size_inv_turn:
  assumes size: "size_inv M s" and p: "p \<in> set (indexMap s)"
    and mx: "\<forall>x\<in>set (indexMap s). degree M (indexMap s) x \<le> degree M (indexMap s) p"
  shows "size_inv M (turn M p s)"
proof -
  let ?L = "indexMap s" and ?ms = "classMembers s"
  let ?new = "filter (\<lambda>x. M ! p ! x \<noteq> 0) ?L"
  let ?L' = "filter (\<lambda>x. M ! p ! x = 0) ?L"
  from size have srt: "sorted_wrt (\<ge>) (map length ?ms)"
    and bnd: "\<forall>c<length ?ms. \<forall>x\<in>set ?L. degree M ?L x \<le> length (?ms ! c)"
    by (simp_all add: size_inv_def)
  have new: "length ?new = degree M ?L p" by (simp add: degree_def)
  have "\<forall>n\<in>set (map length ?ms). length ?new \<le> n"
  proof
    fix n assume "n \<in> set (map length ?ms)"
    then obtain c where "c < length ?ms" "n = length (?ms ! c)"
      by (auto simp: in_set_conv_nth)
    with bnd p show "length ?new \<le> n" unfolding new by simp
  qed
  then have 1: "sorted_wrt (\<ge>) (map length (?ms @ [?new]))"
    using srt by (simp add: sorted_wrt_append)
  have 2: "\<forall>c<length (?ms @ [?new]). \<forall>x\<in>set ?L'. degree M ?L' x \<le> length ((?ms @ [?new]) ! c)"
  proof (intro allI impI ballI)
    fix c x assume c: "c < length (?ms @ [?new])" and x: "x \<in> set ?L'"
    then have xL: "x \<in> set ?L" by simp
    have le: "degree M ?L' x \<le> degree M ?L x" by (rule degree_filter_le)
    show "degree M ?L' x \<le> length ((?ms @ [?new]) ! c)"
    proof (cases "c < length ?ms")
      case True
      with bnd xL le show ?thesis by (auto simp: nth_append intro: order.trans)
    next
      case False
      with c have "c = length ?ms" by simp
      with mx xL le show ?thesis unfolding new[symmetric] by (auto simp: nth_append new intro: order.trans)
    qed
  qed
  show ?thesis unfolding size_inv_def turn_simps using 1 2 by blast
qed

lemma PSP_step_inv:
  assumes inv: "greedy_inv M s" and pos: "0 < unclassified s" and m01: "mask01 M" and dg: "diag1 M"
  shows "(classno s < 32767 \<longrightarrow>
            (\<exists>s'. PSP_step s = Inr s' \<and> greedy_inv M s' \<and>
                   length (indexMap s') < length (indexMap s) \<and> classno s' = classno s + 1)) \<and>
         (32767 \<le> classno s \<longrightarrow> PSP_step s = Inl OverflowError)"
proof -
  from inv have live: "live_inv M s" and part: "part_inv M s" and proto: "proto_inv M s"
    and size: "size_inv M s" by (simp_all add: greedy_inv_def)
  obtain cp where
    cp: "cp < length (indexMap s)"
    and mx: "\<forall>j<length (indexMap s). degree M (indexMap s) (indexMap s ! j) \<le> degree M (indexMap s) (indexMap s ! cp)"
    and "\<forall>j<cp. degree M (indexMap s) (indexMap s ! j) < degree M (indexMap s) (indexMap s ! cp)"
    and step: "PSP_step s = (if 32767 < classno s + 1 then Inl OverflowError
                   else Inr (turn M (indexMap s ! cp) s))"
    by (rule PSP_step_turn[OF live pos m01])
  let ?p = "indexMap s ! cp"
  from cp have pin: "?p \<in> set (indexMap s)" by simp
  with live have plt: "?p < length M" by (simp add: live_inv_def)
  with dg have pd: "M ! ?p ! ?p \<noteq> 0" by (simp add: diag1_def)
  have mx': "\<forall>x\<in>set (indexMap s). degree M (indexMap s) x \<le> degree M (indexMap s) ?p"
    using mx by (auto simp: in_set_conv_nth)
  have g: "greedy_inv M (turn M ?p s)"
    unfolding greedy_inv_def
    using live_inv_turn[OF live] part_inv_turn[OF live part] proto_inv_turn[OF proto pin plt pd]
      size_inv_turn[OF size pin mx'] by simp
  have pr: "length (indexMap (turn M ?p s)) < length (indexMap s)"
    by (rule turn_progress[OF pin pd])
  have s1: "classno s < 32767 \<Longrightarrow> PSP_step s = Inr (turn M ?p s)"
    unfolding step by simp
  have s2: "32767 \<le> classno s \<Longrightarrow> PSP_step s = Inl OverflowError"
    unfolding step by simp
  have c: "classno (turn M ?p s) = classno s + 1" by simp
  show ?thesis
  proof (intro conjI impI)
    assume "classno s < 32767"
    from s1[OF this] have "PSP_step s = Inr (turn M ?p s) \<and> greedy_inv M (turn M ?p s) \<and>
        length (indexMap (turn M ?p s)) < length (indexMap s) \<and>
        classno (turn M ?p s) = classno s + 1"
      using g pr c by (intro conjI)
    then show "\<exists>s'. PSP_step s = Inr s' \<and> greedy_inv M s' \<and>
                   length (indexMap s') < length (indexMap s) \<and> classno s' = classno s + 1"
      by (rule exI)
  next
    assume "32767 \<le> classno s"
    then show "PSP_step s = Inl OverflowError" by (rule s2)
  qed
qed

lemma PSP_loop_inv:
  assumes m01: "mask01 M" and dg: "diag1 M"
  shows "greedy_inv M s \<Longrightarrow>
         (\<exists>s'. PSP_loop s = Some (Inr s') \<and> greedy_inv M s' \<and> indexMap s' = []) \<or>
         (PSP_loop s = Some (Inl OverflowError) \<and> 32767 < classno s + length (indexMap s))"
proof (induction "length (indexMap s)" arbitrary: s rule: less_induct)
  case less
  from less.prems have unc: "unclassified s = int (length (indexMap s))"
    by (simp add: greedy_inv_def live_inv_def)
  show ?case
  proof (cases "0 < unclassified s")
    case False
    with unc have "indexMap s = []" by simp
    moreover from False have "PSP_loop s = Some (Inr s)" by (rule PSP_loop_stop)
    ultimately show ?thesis using less.prems by blast
  next
    case True
    note st = PSP_step_inv[OF less.prems True m01 dg]
    from True unc have pos: "1 \<le> length (indexMap s)" by (cases "indexMap s") simp_all
    show ?thesis
    proof (cases "classno s < 32767")
      case False
      with st have "PSP_step s = Inl OverflowError" by simp
      then have "PSP_loop s = Some (Inl OverflowError)"
        by (simp add: PSP_loop_turn[OF True])
      moreover from False pos have "32767 < classno s + length (indexMap s)" by linarith
      ultimately show ?thesis by blast
    next
      case lt: True
      with st obtain s' where s': "PSP_step s = Inr s'" "greedy_inv M s'"
        "length (indexMap s') < length (indexMap s)" "classno s' = classno s + 1"
        by blast
      have eq: "PSP_loop s = PSP_loop s'"
        by (simp add: PSP_loop_turn[OF True] s'(1))
      from less.hyps[OF s'(3) s'(2)] consider
          (ok) r where "PSP_loop s' = Some (Inr r)" "greedy_inv M r" "indexMap r = []"
        | (ovf) "PSP_loop s' = Some (Inl OverflowError)" "32767 < classno s' + length (indexMap s')"
        by blast
      then show ?thesis
      proof cases
        case ok
        then show ?thesis unfolding eq by blast
      next
        case ovf
        from ovf(2) s'(3,4) have "32767 < classno s + length (indexMap s)" by linarith
        with ovf(1) show ?thesis unfolding eq by blast
      qed
    qed
  qed
qed

lemma thresh_mask_length [simp]: "length (thresh_mask sm t) = length sm"
  by (simp add: thresh_mask_def)

lemma thresh_mask_nth:
  "square sm \<Longrightarrow> i < length sm \<Longrightarrow> j < length sm \<Longrightarrow>
     thresh_mask sm t ! i ! j = (if t \<le> sm ! i ! j then 1 else 0)"
  by (simp add: thresh_mask_def square_def)

lemma thresh_mask_01: "square sm \<Longrightarrow> mask01 (thresh_mask sm t)"
  by (simp add: mask01_def thresh_mask_nth)

lemma thresh_mask_diag:
  "square sm \<Longrightarrow> \<forall>i<length sm. t \<le> sm ! i ! i \<Longrightarrow> diag1 (thresh_mask sm t)"
  by (simp add: diag1_def thresh_mask_nth)

lemma submask_all:
  assumes "square sm"
  shows "submask (thresh_mask sm t) [0..<length sm] = thresh_mask sm t"
proof (rule nth_equalityI)
  show "length (submask (thresh_mask sm t) [0..<length sm]) = length (thresh_mask sm t)"
    by (simp add: submask_def)
next
  fix i assume "i < length (submask (thresh_mask sm t) [0..<length sm])"
  then have i: "i < length sm" by (simp add: submask_def)
  with assms have len: "length (thresh_mask sm t ! i) = length sm"
    by (simp add: thresh_mask_def square_def)
  have "map (\<lambda>j. thresh_mask sm t ! i ! j) [0..<length sm] = thresh_mask sm t ! i"
    using map_nth[of "thresh_mask sm t ! i"] len by simp
  then show "submask (thresh_mask sm t) [0..<length sm] ! i = thresh_mask sm t ! i"
    using i by (simp add: submask_def)
qed

lemma greedy_inv_start:
  assumes "square sm"
  shows "greedy_inv (thresh_mask sm t) (PSP_start sm t)"
proof -
  have m: "mask (PSP_start sm t) = thresh_mask sm t"
    by (simp add: PSP_start_def thresh_mask_def)
  have "live_inv (thresh_mask sm t) (PSP_start sm t)"
    unfolding live_inv_def m by (simp add: PSP_start_def submask_all[OF assms])
  moreover have "part_inv (thresh_mask sm t) (PSP_start sm t)"
    by (auto simp: part_inv_def PSP_start_def)
  moreover have "proto_inv (thresh_mask sm t) (PSP_start sm t)"
    by (simp add: proto_inv_def PSP_start_def)
  moreover have "size_inv (thresh_mask sm t) (PSP_start sm t)"
    by (simp add: size_inv_def PSP_start_def)
  ultimately show ?thesis by (simp add: greedy_inv_def)
qed

lemma PSP_loop_start:
  assumes sq: "square sm" and dg: "\<forall>i<length sm. t \<le> sm ! i ! i"
  shows "(\<exists>s'. PSP_loop (PSP_start sm t) = Some (Inr s') \<and>
               greedy_inv (thresh_mask sm t) s' \<and> indexMap s' = []) \<or>
         (PSP_loop (PSP_start sm t) = Some (Inl OverflowError) \<and> 32767 < length sm)"
  using PSP_loop_inv[OF thresh_mask_01[OF sq] thresh_mask_diag[OF sq dg] greedy_inv_start[OF sq]]
  by (simp add: PSP_start_def)

lemma argmax_axis0_spec:
  assumes ne: "rows \<noteq> []" and len: "\<forall>r\<in>set rows. length r = n"
  obtains am where "argmax_axis0 rows = Some am" "length am = n"
    "\<forall>j<n. am ! j < length rows \<and> (\<forall>c<length rows. rows ! c ! j \<le> rows ! (am ! j) ! j) \<and>
            (\<forall>c<am ! j. rows ! c ! j < rows ! (am ! j) ! j)"
proof -
  from ne obtain r rs where rows: "rows = r # rs" by (cases rows) auto
  with len have lr: "length r = n" by simp
  let ?am = "map (\<lambda>j. argmax_scan (r ! j) 0 1 (map (\<lambda>q. q ! j) rs)) [0..<length r]"
  have a: "argmax_axis0 rows = Some ?am" by (simp add: argmax_axis0_def rows)
  have b: "length ?am = n" using lr by simp
  have c: "\<forall>j<n. ?am ! j < length rows \<and> (\<forall>c<length rows. rows ! c ! j \<le> rows ! (?am ! j) ! j) \<and>
            (\<forall>c<?am ! j. rows ! c ! j < rows ! (?am ! j) ! j)"
  proof (intro allI impI)
    fix j assume j: "j < n"
    let ?zs = "map (\<lambda>q. q ! j) rows"
    let ?r = "argmax_scan (r ! j) 0 1 (map (\<lambda>q. q ! j) rs)"
    have s: "?r < length ?zs \<and> (\<forall>c<length ?zs. ?zs ! c \<le> ?zs ! ?r) \<and> (\<forall>c<?r. ?zs ! c < ?zs ! ?r)"
      by (rule argmax_scan_spec) (simp_all add: rows)
    from s have sb: "\<forall>c<length ?zs. ?zs ! c \<le> ?zs ! ?r" by (rule conjunct1[OF conjunct2])
    from s have sc: "\<forall>c<?r. ?zs ! c < ?zs ! ?r" by (rule conjunct2[OF conjunct2])
    from s have rl: "?r < length rows" by simp
    have amj: "?am ! j = ?r" using j lr by simp
    have z: "?zs ! c = rows ! c ! j" if "c < length rows" for c using that by simp
    have s1: "\<forall>c<length rows. rows ! c ! j \<le> rows ! ?r ! j"
    proof (intro allI impI)
      fix c assume c: "c < length rows"
      then have "c < length ?zs" by simp
      then have "?zs ! c \<le> ?zs ! ?r" by (rule sb[rule_format])
      then show "rows ! c ! j \<le> rows ! ?r ! j" unfolding z[OF c] z[OF rl] .
    qed
    have s2: "\<forall>c<?r. rows ! c ! j < rows ! ?r ! j"
    proof (intro allI impI)
      fix c assume c: "c < ?r"
      with rl have cl: "c < length rows" by simp
      from c have "?zs ! c < ?zs ! ?r" by (rule sc[rule_format])
      then show "rows ! c ! j < rows ! ?r ! j" unfolding z[OF cl] z[OF rl] .
    qed
    show "?am ! j < length rows \<and> (\<forall>c<length rows. rows ! c ! j \<le> rows ! (?am ! j) ! j) \<and>
            (\<forall>c<?am ! j. rows ! c ! j < rows ! (?am ! j) ! j)"
      unfolding amj using rl s1 s2 by (intro conjI)
  qed
  show thesis by (rule that[OF a b c])
qed

lemma classes_concat:
  "distinct (concat (map (\<lambda>c. filter (\<lambda>i. a ! i = c + 1) [0..<n]) [0..<K])) \<and>
   set (concat (map (\<lambda>c. filter (\<lambda>i. a ! i = c + 1) [0..<n]) [0..<K]))
     = {i. i < n \<and> 1 \<le> a ! i \<and> a ! i \<le> K}"
proof (induction K)
  case 0
  then show ?case by simp
next
  case (Suc K)
  let ?g = "\<lambda>c. filter (\<lambda>i. a ! i = c + 1) [0..<n]"
  from Suc have d: "distinct (concat (map ?g [0..<K]))"
    and e: "set (concat (map ?g [0..<K])) = {i. i < n \<and> 1 \<le> a ! i \<and> a ! i \<le> K}"
    by simp_all
  have c: "concat (map ?g [0..<Suc K]) = concat (map ?g [0..<K]) @ ?g K" by simp
  have dj: "set (concat (map ?g [0..<K])) \<inter> set (?g K) = {}"
    unfolding e by auto
  have 1: "distinct (concat (map ?g [0..<Suc K]))"
    unfolding c using d dj by simp
  have 2: "set (concat (map ?g [0..<Suc K])) = {i. i < n \<and> 1 \<le> a ! i \<and> a ! i \<le> Suc K}"
    unfolding c set_append e by auto
  from 1 2 show ?case by (rule conjI)
qed

lemma wellformed_square: "wellformed sm \<Longrightarrow> square sm"
  by (simp add: wellformed_def square_def)

lemma entry_of_members [simp]: "c_members (entry_of ps ms tot i) = ms ! i"
  by (simp add: entry_of_def)

lemma reassign_success:
  assumes wf: "wellformed sm" and sm: "simmat st = sm" and tot: "totalcount st = length sm"
    and ne: "prototypes st \<noteq> []" and sep: "separated sm (prototypes st)"
  obtains st' where "reassign st = Inr st'" "state_inv sm st'" "prototypes st' = prototypes st"
proof -
  let ?ps = "prototypes st"
  let ?K = "length ?ps"
  let ?N = "length sm"
  let ?rows = "map ((!) sm) ?ps"
  from ne have Kpos: "0 < ?K" by simp
  from sep have inr: "\<forall>c<?K. ?ps ! c < ?N"
    and sp: "\<forall>c<?K. \<forall>c'<c. sm ! (?ps ! c') ! (?ps ! c) < 1"
    by (simp_all add: separated_def)
  from inr Kpos have Npos: "0 < ?N" by (metis less_nat_zero_code neq0_conv)
  have inr': "\<forall>p\<in>set ?ps. p < ?N" using inr by (auto simp: in_set_conv_nth)
  from wf have sq: "\<forall>i<?N. length (sm ! i) = ?N" and dg: "\<forall>i<?N. sm ! i ! i = 1"
    by (simp_all add: wellformed_def)
  have rne: "?rows \<noteq> []" using ne by simp
  have rlen: "\<forall>r\<in>set ?rows. length r = ?N" using inr' sq by auto
  obtain am where am: "argmax_axis0 ?rows = Some am" and lam: "length am = ?N"
    and spec: "\<forall>j<?N. am ! j < length ?rows \<and> (\<forall>c<length ?rows. ?rows ! c ! j \<le> ?rows ! (am ! j) ! j) \<and>
            (\<forall>c<am ! j. ?rows ! c ! j < ?rows ! (am ! j) ! j)"
    by (rule argmax_axis0_spec[OF rne rlen])
  let ?mp = "map Suc am"
  have amK: "am ! j < ?K" if "j < ?N" for j using spec that by simp
  have mpne: "?mp \<noteq> []" using lam Npos by auto
  \<comment> \<open>the last prototype keeps its own class\<close>
  let ?q = "?ps ! (?K - 1)"
  have qN: "?q < ?N" using inr Kpos by simp
  have last: "am ! ?q = ?K - 1"
  proof -
    let ?r = "am ! ?q"
    have rK: "?r < ?K" by (rule amK[OF qN])
    from spec qN have "\<forall>c<length ?rows. ?rows ! c ! ?q \<le> ?rows ! ?r ! ?q" by blast
    then have "?rows ! (?K - 1) ! ?q \<le> ?rows ! ?r ! ?q" using Kpos by simp
    then have ge: "sm ! ?q ! ?q \<le> sm ! (?ps ! ?r) ! ?q" using Kpos rK by simp
    have "\<not> ?r < ?K - 1"
    proof
      assume lt: "?r < ?K - 1"
      from sp Kpos have "\<forall>c'<?K - 1. sm ! (?ps ! c') ! ?q < 1" by simp
      with lt have "sm ! (?ps ! ?r) ! ?q < 1" by simp
      with ge dg qN show False by simp
    qed
    with rK show ?thesis by simp
  qed
  have Kin: "?K \<in> set ?mp"
  proof -
    have "?mp ! ?q = ?K" using last qN lam Kpos by simp
    moreover have "?q < length ?mp" using qN lam by simp
    ultimately show ?thesis by (metis nth_mem)
  qed
  have mple: "\<forall>x\<in>set ?mp. x \<le> ?K"
  proof
    fix x assume "x \<in> set ?mp"
    then obtain j where "j < ?N" "x = Suc (am ! j)" using lam by (auto simp: in_set_conv_nth)
    with amK[of j] show "x \<le> ?K" by simp
  qed
  have mx: "np_max ?mp = ?K" by (rule np_max_eq[OF Kin mple])
  let ?ms = "map (\<lambda>i. np_where ?mp (i + 1)) [0..<?K]"
  let ?ci = "map (entry_of ?ps ?ms ?N) [0..<?K]"
  have ci: "class_index ?ps ?ms ?N = Inr ?ci"
    by (rule class_index_ok) (use Npos in simp_all)
  let ?st' = "st\<lparr>map' := ?mp, members := ?ms, index := ?ci\<rparr>"
  have smne: "sm \<noteq> []" using Npos by auto
  have nob: "\<not> (\<exists>p\<in>set ?ps. length sm \<le> p)" using inr' by auto
  have run: "reassign st = Inr ?st'"
    unfolding reassign_def Let_def
    by (simp only: sm smne nob if_False am option.case mpne mx tot ci sum.case)
  have ms_eq: "?ms = map (\<lambda>c. filter (\<lambda>i. ?mp ! i = c + 1) [0..<?N]) [0..<?K]"
    by (simp add: np_where_def lam)
  have rng: "{i. i < ?N \<and> 1 \<le> ?mp ! i \<and> ?mp ! i \<le> ?K} = {..<?N}"
  proof -
    have "1 \<le> ?mp ! i \<and> ?mp ! i \<le> ?K" if "i < ?N" for i
      using amK[OF that] that lam by simp
    then show ?thesis by auto
  qed
  note cc = classes_concat[of ?mp ?N ?K]
  have p1: "distinct (concat ?ms)" unfolding ms_eq using cc by (rule conjunct1)
  have p2: "set (concat ?ms) = {..<?N}" unfolding ms_eq using cc rng by simp
  have p3: "\<forall>c<length ?ms. \<forall>i\<in>set (?ms ! c). ?mp ! i = c + 1"
    by (simp add: np_where_def)
  have part: "partition_ok ?st'"
    unfolding partition_ok_def using p1 p2 p3 by (simp add: sm lam)
  have idx: "map c_members ?ci = ?ms"
  proof -
    have "map c_members ?ci = map ((!) ?ms) [0..<length ?ms]" by simp
    then show ?thesis by (simp only: map_nth)
  qed
  have inv: "state_inv sm ?st'"
    unfolding state_inv_def using part idx sep by (simp add: sm tot)
  show thesis by (rule that[OF run inv]) simp
qed

lemma mset_concat_cong: "mset xss = mset yss \<Longrightarrow> mset (concat xss) = mset (concat yss)"
proof -
  assume eq: "mset xss = mset yss"
  have "sum_list (map mset zs) = sum_mset (image_mset mset (mset zs))" for zs :: "'a list list"
    by (simp flip: sum_mset_sum_list)
  then show ?thesis by (simp add: mset_concat eq)
qed

lemma concat_disjoint_nth:
  assumes d: "distinct (concat ms)" and c: "c < c'" "c' < length ms"
  shows "set (ms ! c) \<inter> set (ms ! c') = {}"
proof -
  have ms: "ms = take c' ms @ ms ! c' # drop (Suc c') ms"
    by (rule id_take_nth_drop[OF c(2)])
  have "concat ms = concat (take c' ms) @ ms ! c' @ concat (drop (Suc c') ms)"
    by (subst ms) simp
  with d have dj: "set (concat (take c' ms)) \<inter> set (ms ! c') = {}" by auto
  have "ms ! c = take c' ms ! c" using c by simp
  moreover have "take c' ms ! c \<in> set (take c' ms)"
  proof (rule nth_mem)
    show "c < length (take c' ms)" using c by simp
  qed
  ultimately have "set (ms ! c) \<subseteq> set (concat (take c' ms))" by auto
  with dj show ?thesis by blast
qed

lemma fold_store_length [simp]:
  "length (fold (\<lambda>c b. store b (g c) (h c)) xs a) = length a"
  by (induction xs arbitrary: a) simp_all

lemma fold_store_classes:
  assumes d: "distinct (concat ms)" and r: "\<forall>x\<in>set (concat ms). x < length a"
  shows "k \<le> length ms \<Longrightarrow>
         \<forall>c<k. \<forall>i\<in>set (ms ! c). fold (\<lambda>c b. store b (ms ! c) (c + 1)) [0..<k] a ! i = c + 1"
proof (induction k)
  case 0
  then show ?case by simp
next
  case (Suc k)
  let ?f = "\<lambda>c b. store b (ms ! c) (c + 1)"
  let ?A = "fold ?f [0..<k] a"
  from Suc have IH: "\<forall>c<k. \<forall>i\<in>set (ms ! c). ?A ! i = c + 1" and k: "k < length ms" by simp_all
  have unf: "fold ?f [0..<Suc k] a = store ?A (ms ! k) (k + 1)" by simp
  show ?case
  proof (intro allI impI ballI)
    fix c i assume c: "c < Suc k" and i: "i \<in> set (ms ! c)"
    from c k have cl: "c < length ms" by simp
    with i have "i \<in> set (concat ms)" by auto
    with r have "i < length a" by (rule bspec)
    then have il: "i < length ?A" by simp
    have st: "store ?A (ms ! k) (k + 1) ! i = (if i \<in> set (ms ! k) then k + 1 else ?A ! i)"
      using il by (rule store_nth)
    show "fold ?f [0..<Suc k] a ! i = c + 1"
    proof (cases "c = k")
      case True
      with i st show ?thesis unfolding unf by simp
    next
      case False
      with c have ck: "c < k" by simp
      from concat_disjoint_nth[OF d ck k] i have "i \<notin> set (ms ! k)" by auto
      with st IH ck i show ?thesis unfolding unf by simp
    qed
  qed
qed

lemma sort'_success:
  assumes inv: "state_inv sm st"
  obtains st' where "sort' st = Inr st'" "state_inv sm st'" "prototypes st' = prototypes st"
    "length (members st') = length (members st)"
proof -
  let ?ix = "sort_key (\<lambda>c. - int (c_count c)) (index st)"
  let ?K = "length (members st)"
  let ?N = "length sm"
  from inv have sm: "simmat st = sm" and tot: "totalcount st = ?N" and part: "partition_ok st"
    and lp: "length (prototypes st) = ?K" and im: "map c_members (index st) = members st"
    and sep: "separated sm (prototypes st)"
    by (simp_all add: state_inv_def)
  from part have lm: "length (map' st) = ?N" and d: "distinct (concat (members st))"
    and cov: "set (concat (members st)) = {..<?N}"
    by (simp_all add: partition_ok_def sm)
  have li: "length (index st) = ?K" using arg_cong[OF im, of length] by simp
  have lix: "length ?ix = ?K" by (simp add: li)
  let ?ms = "map c_members ?ix"
  have msm: "mset ?ms = mset (members st)"
  proof -
    have "mset ?ms = image_mset c_members (mset (index st))" by simp
    also have "\<dots> = mset (map c_members (index st))" by simp
    finally show ?thesis by (simp only: im)
  qed
  have mc: "mset (concat ?ms) = mset (concat (members st))" by (rule mset_concat_cong[OF msm])
  have d': "distinct (concat ?ms)" using mset_eq_imp_distinct_iff[OF mc] d by simp
  have cov': "set (concat ?ms) = {..<?N}" using mset_eq_setD[OF mc] cov by simp
  let ?z = "replicate (length (map' st)) (0::nat)"
  let ?mp = "fold (\<lambda>i a. store a (c_members (?ix ! i)) (i + 1)) [0..<length ?ix] ?z"
  have mp_eq: "?mp = fold (\<lambda>c b. store b (?ms ! c) (c + 1)) [0..<length ?ms] ?z"
    by (rule fold_cong) simp_all
  have r: "\<forall>x\<in>set (concat ?ms). x < length ?z" unfolding cov' lm by simp
  have agree: "\<forall>c<length ?ms. \<forall>i\<in>set (?ms ! c). ?mp ! i = c + 1"
    unfolding mp_eq by (rule fold_store_classes[OF d' r]) simp
  have lmp: "length ?mp = ?N" unfolding mp_eq by (simp add: lm)
  let ?index = "map (\<lambda>i. (?ix ! i)\<lparr>c_class := i + 1\<rparr>) [0..<length ?ix]"
  let ?ps = "map ((!) (prototypes st)) [0..<length ?ix]"
  have ps: "?ps = prototypes st" unfolding lix lp[symmetric] by (rule map_nth)
  have idx: "map c_members ?index = ?ms"
  proof -
    have "map c_members ?index = map ((!) ?ms) [0..<length ?ms]" by simp
    then show ?thesis by (simp only: map_nth)
  qed
  let ?st' = "st\<lparr>index := ?index, map' := ?mp, members := ?ms, prototypes := ?ps\<rparr>"
  have c1: "\<not> length (prototypes st) < length ?ix" unfolding lix lp by simp
  have c2: "\<not> (\<exists>c\<in>set ?ix. \<exists>i\<in>set (c_members c). length (map' st) \<le> i)"
  proof
    assume "\<exists>c\<in>set ?ix. \<exists>i\<in>set (c_members c). length (map' st) \<le> i"
    then obtain c i where c: "c \<in> set ?ix" and i: "i \<in> set (c_members c)" and b: "length (map' st) \<le> i"
      by blast
    from c i have "i \<in> set (concat ?ms)" by auto
    with cov' lm b show False by simp
  qed
  have run: "sort' st = Inr ?st'"
    unfolding sort'_def Let_def by (simp only: c1 c2 if_False)
  have f1: "simmat ?st' = sm" "totalcount ?st' = ?N" by (simp_all add: sm tot)
  have f2: "members ?st' = ?ms" "map' ?st' = ?mp" "index ?st' = ?index" by simp_all
  have f3: "prototypes ?st' = prototypes st" using ps by simp
  have lms: "length ?ms = ?K" using lix by simp
  have part': "partition_ok ?st'"
    unfolding partition_ok_def f1 f2 using lmp d' cov' agree by (intro conjI)
  have inv': "state_inv sm ?st'"
    unfolding state_inv_def f1 f2(1,3) f3
    using part' idx sep lp lms by (simp only: simp_thms)
  show thesis
    by (rule that[OF run inv' f3]) (simp only: f2 lms)
qed

lemma concat_disjoint_neq:
  assumes d: "distinct (concat ms)" and c: "c < length ms" "c' < length ms" "c \<noteq> c'"
  shows "set (ms ! c) \<inter> set (ms ! c') = {}"
proof (cases "c < c'")
  case True
  then show ?thesis by (rule concat_disjoint_nth[OF d _ c(2)])
next
  case False
  with c(3) have "c' < c" by simp
  from concat_disjoint_nth[OF d this c(1)] show ?thesis by blast
qed

lemma partition_ok_exact:
  assumes "partition_ok st"
  shows "exact_partition (length (simmat st)) (members st) (map' st)"
proof -
  let ?n = "length (simmat st)" and ?ms = "members st" and ?mp = "map' st"
  from assms have len: "length ?mp = ?n" and d: "distinct (concat ?ms)"
    and cov: "set (concat ?ms) = {..<?n}"
    and agr: "\<forall>c<length ?ms. \<forall>i\<in>set (?ms ! c). ?mp ! i = c + 1"
    by (simp_all add: partition_ok_def)
  have ex: "\<exists>c. c < length ?ms \<and> i \<in> set (?ms ! c)" if "i < ?n" for i
  proof -
    from that cov have "i \<in> set (concat ?ms)" by simp
    then obtain ys where "ys \<in> set ?ms" "i \<in> set ys" by auto
    then show ?thesis by (auto simp: in_set_conv_nth)
  qed
  have un: "c = c'" if "c < length ?ms" "i \<in> set (?ms ! c)" "c' < length ?ms" "i \<in> set (?ms ! c')"
    for i c c'
  proof (rule ccontr)
    assume "c \<noteq> c'"
    from concat_disjoint_neq[OF d that(1) that(3) this] that(2,4) show False by blast
  qed
  have 2: "\<forall>i<?n. \<exists>!c. c < length ?ms \<and> i \<in> set (?ms ! c)"
  proof (intro allI impI)
    fix i assume "i < ?n"
    from ex[OF this] obtain c where c: "c < length ?ms \<and> i \<in> set (?ms ! c)" ..
    show "\<exists>!c. c < length ?ms \<and> i \<in> set (?ms ! c)"
    proof (rule ex1I[of _ c])
      show "c < length ?ms \<and> i \<in> set (?ms ! c)" by (rule c)
    next
      fix c' assume "c' < length ?ms \<and> i \<in> set (?ms ! c')"
      with c show "c' = c" using un by blast
    qed
  qed
  have 3: "\<forall>c<length ?ms. distinct (?ms ! c) \<and> set (?ms ! c) \<subseteq> {..<?n}"
  proof (intro allI impI)
    fix c assume c: "c < length ?ms"
    then have mem: "?ms ! c \<in> set ?ms" by simp
    from d have "\<forall>ys. ys \<in> set ?ms \<longrightarrow> distinct ys" by (simp add: distinct_concat_iff)
    with mem have "distinct (?ms ! c)" by blast
    moreover from mem have "set (?ms ! c) \<subseteq> set (concat ?ms)" by auto
    ultimately show "distinct (?ms ! c) \<and> set (?ms ! c) \<subseteq> {..<?n}" unfolding cov by simp
  qed
  have 4: "\<forall>i<?n. \<forall>c<length ?ms. i \<in> set (?ms ! c) \<longleftrightarrow> ?mp ! i = c + 1"
  proof (intro allI impI iffI)
    fix i c assume "i < ?n" "c < length ?ms" "i \<in> set (?ms ! c)"
    with agr show "?mp ! i = c + 1" by simp
  next
    fix i c assume i: "i < ?n" and c: "c < length ?ms" and v: "?mp ! i = c + 1"
    from ex[OF i] obtain c0 where c0: "c0 < length ?ms" "i \<in> set (?ms ! c0)" by blast
    with agr have "?mp ! i = c0 + 1" by simp
    with v have "c0 = c" by simp
    with c0 show "i \<in> set (?ms ! c)" by simp
  qed
  show ?thesis unfolding exact_partition_def using len 2 3 4 by (intro conjI)
qed

lemma entries_members:
  "length ms = length ps \<Longrightarrow> map c_members (map (entry_of ps ms tot) [0..<length ps]) = ms"
proof -
  assume l: "length ms = length ps"
  have "map c_members (map (entry_of ps ms tot) [0..<length ps]) = map ((!) ms) [0..<length ms]"
    by (simp add: l)
  then show ?thesis by (simp only: map_nth)
qed

lemma class_index_empty: "class_index [] ms tot = Inr []"
  by (simp add: class_index_def)

lemma init_result:
  assumes wf: "wellformed sm" and t: "t \<le> 1"
  shows "(\<exists>st. simClassMap_init d sm t = Some (Inr st) \<and> state_inv sm st \<and>
               sorted_wrt (\<ge>) (map length (members st)) \<and>
               PSP sm t = Some (Inr (map' st, prototypes st, members st))) \<or>
         (simClassMap_init d sm t = Some (Inl OverflowError) \<and>
          PSP sm t = Some (Inl OverflowError) \<and> 32767 < length sm)"
proof -
  let ?M = "thresh_mask sm t" and ?N = "length sm"
  have sq: "square sm" by (rule wellformed_square[OF wf])
  from wf t have dg: "\<forall>i<?N. t \<le> sm ! i ! i" by (simp add: wellformed_def)
  from PSP_loop_start[OF sq dg] consider
      (ok) s where "PSP_loop (PSP_start sm t) = Some (Inr s)" "greedy_inv ?M s" "indexMap s = []"
    | (ovf) "PSP_loop (PSP_start sm t) = Some (Inl OverflowError)" "32767 < ?N"
    by blast
  then show ?thesis
  proof cases
    case ovf
    then have "simClassMap_init d sm t = Some (Inl OverflowError)" "PSP sm t = Some (Inl OverflowError)"
      by (simp_all add: simClassMap_init_def PSP_def)
    with ovf(2) show ?thesis by blast
  next
    case ok
    let ?ps = "classPrototypes s" and ?ms = "classMembers s" and ?mp = "classAssigned s"
    from ok(2) have live: "live_inv ?M s" and part: "part_inv ?M s" and proto: "proto_inv ?M s"
      and size: "size_inv ?M s" by (simp_all add: greedy_inv_def)
    from live have lmp: "length ?mp = ?N" by (simp add: live_inv_def)
    from part ok(3) have d: "distinct (concat ?ms)" and cov: "set (concat ?ms) = {..<?N}"
      and agr: "\<forall>c<length ?ms. \<forall>i\<in>set (?ms ! c). ?mp ! i = c + 1"
      by (simp_all add: part_inv_def)
    from proto have lps: "length ?ps = length ?ms"
      and inr: "\<forall>c<length ?ps. ?ps ! c < ?N"
      and sepM: "\<forall>c<length ?ps. \<forall>c'<c. ?M ! (?ps ! c') ! (?ps ! c) = 0"
      by (simp_all add: proto_inv_def)
    from size have srt: "sorted_wrt (\<ge>) (map length ?ms)" by (simp add: size_inv_def)
    have sep: "separated sm ?ps"
      unfolding separated_def
    proof (intro conjI allI impI)
      fix c assume "c < length ?ps" with inr show "?ps ! c < ?N" by simp
    next
      fix c c' assume c: "c < length ?ps" and c': "c' < c"
      with sepM have z: "?M ! (?ps ! c') ! (?ps ! c) = 0" by simp
      from c c' inr have "?ps ! c' < ?N" "?ps ! c < ?N" by simp_all
      from thresh_mask_nth[OF sq this, of t] z have "\<not> t \<le> sm ! (?ps ! c') ! (?ps ! c)"
        by (simp split: if_splits)
      with t show "sm ! (?ps ! c') ! (?ps ! c) < 1" by simp
    qed
    let ?ci = "map (entry_of ?ps ?ms ?N) [0..<length ?ps]"
    have ci: "class_index ?ps ?ms ?N = Inr ?ci"
    proof (cases "?ps = []")
      case True
      then show ?thesis by (simp add: class_index_empty)
    next
      case False
      then have "0 < length ?ps" by simp
      with inr have "?ps ! 0 < ?N" by simp
      then have "0 < ?N" by (cases sm) simp_all
      with lps show ?thesis by (intro class_index_ok) simp_all
    qed
    let ?st = "\<lparr>thresh = t, data = d, simmat = sm, prototypes = ?ps, members = ?ms,
                map' = ?mp, totalcount = ?N, index = ?ci,
                data2 = None, simmat2 = None, prototypes2 = None, map2 = None,
                totalcount2 = None, members2 = None, index2 = None\<rparr>"
    have run: "simClassMap_init d sm t = Some (Inr ?st)"
      unfolding simClassMap_init_def by (simp only: ok(1) option.case sum.case lmp ci)
    have psp: "PSP sm t = Some (Inr (?mp, ?ps, ?ms))"
      unfolding PSP_def by (simp only: ok(1) option.case sum.case)
    have pok: "partition_ok ?st"
      unfolding partition_ok_def using lmp d cov agr by simp
    have idx: "map c_members ?ci = ?ms" by (rule entries_members[OF lps[symmetric]])
    have inv: "state_inv sm ?st"
      unfolding state_inv_def using pok lps idx sep by simp
    have "simClassMap_init d sm t = Some (Inr ?st) \<and> state_inv sm ?st \<and>
               sorted_wrt (\<ge>) (map length (members ?st)) \<and>
               PSP sm t = Some (Inr (map' ?st, prototypes ?st, members ?st))"
      using run inv srt psp by simp
    then show ?thesis by blast
  qed
qed

lemma separated_take: "separated sm ps \<Longrightarrow> separated sm (take n ps)"
  by (simp add: separated_def)

lemma separated_slice: "separated sm ps \<Longrightarrow> separated sm (slice_to ps k)"
  by (simp add: slice_to_def separated_take)

lemma reassign_Inr_nonempty:
  assumes "reassign st = Inr st'"
  shows "prototypes st \<noteq> []"
proof
  assume e: "prototypes st = []"
  from assms obtain am where "argmax_axis0 (map ((!) (simmat st)) (prototypes st)) = Some am"
    by (rule reassign_Inr)
  with e show False by (simp add: argmax_axis0_def)
qed

lemma reassign_inv:
  assumes wf: "wellformed sm" and inv: "state_inv sm st" and run: "reassign st = Inr st'"
  shows "state_inv sm st' \<and> prototypes st' = prototypes st"
proof -
  from inv have sm: "simmat st = sm" and tot: "totalcount st = length sm"
    and sep: "separated sm (prototypes st)" by (simp_all add: state_inv_def)
  obtain st1 where "reassign st = Inr st1" "state_inv sm st1" "prototypes st1 = prototypes st"
    by (rule reassign_success[OF wf sm tot reassign_Inr_nonempty[OF run] sep])
  with run show ?thesis by simp
qed

lemma sort'_inv:
  assumes inv: "state_inv sm st" and run: "sort' st = Inr st'"
  shows "state_inv sm st' \<and> prototypes st' = prototypes st \<and>
         length (members st') = length (members st)"
proof -
  obtain st1 where "sort' st = Inr st1" "state_inv sm st1" "prototypes st1 = prototypes st"
    "length (members st1) = length (members st)"
    by (rule sort'_success[OF inv])
  with run show ?thesis by simp
qed

lemma truncate_success:
  assumes wf: "wellformed sm" and inv: "state_inv sm st"
    and ne: "slice_to (prototypes st) k \<noteq> []"
  obtains st' where "truncate k st = Inr st'" "state_inv sm st'"
    "prototypes st' = slice_to (prototypes st) k"
proof -
  let ?st0 = "st\<lparr>prototypes := slice_to (prototypes st) k\<rparr>"
  from inv have sm: "simmat ?st0 = sm" and tot: "totalcount ?st0 = length sm"
    and sep: "separated sm (prototypes ?st0)"
    by (simp_all add: state_inv_def separated_slice)
  from ne have ne0: "prototypes ?st0 \<noteq> []" by simp
  obtain st1 where r1: "reassign ?st0 = Inr st1" and i1: "state_inv sm st1"
    and p1: "prototypes st1 = prototypes ?st0"
    by (rule reassign_success[OF wf sm tot ne0 sep])
  obtain st2 where r2: "sort' st1 = Inr st2" and i2: "state_inv sm st2"
    and p2: "prototypes st2 = prototypes st1"
    by (rule sort'_success[OF i1])
  have run: "truncate k st = Inr st2"
    unfolding truncate_def by (simp only: r1 sum.case r2)
  have "prototypes st2 = slice_to (prototypes st) k" using p1 p2 by simp
  with run i2 show thesis by (rule that)
qed

lemma truncate_Inr_nonempty:
  assumes "truncate k st = Inr st'"
  shows "slice_to (prototypes st) k \<noteq> []"
proof -
  from assms obtain st1 where "reassign (st\<lparr>prototypes := slice_to (prototypes st) k\<rparr>) = Inr st1"
    by (auto simp: truncate_def split: sum.splits)
  from reassign_Inr_nonempty[OF this] show ?thesis by simp
qed

lemma truncate_inv:
  assumes wf: "wellformed sm" and inv: "state_inv sm st" and run: "truncate k st = Inr st'"
  shows "state_inv sm st' \<and> prototypes st' = slice_to (prototypes st) k"
proof -
  obtain st1 where "truncate k st = Inr st1" "state_inv sm st1"
    "prototypes st1 = slice_to (prototypes st) k"
    by (rule truncate_success[OF wf inv truncate_Inr_nonempty[OF run]])
  with run show ?thesis by simp
qed

lemma augment_primary:
  assumes "augment df sm2 st = (e, st')"
  shows "simmat st' = simmat st \<and> totalcount st' = totalcount st \<and>
         prototypes st' = prototypes st \<and> members st' = members st \<and>
         map' st' = map' st \<and> index st' = index st"
  using assms unfolding augment_def Let_def
  by (auto split: if_splits option.splits sum.splits)

lemma augment_inv:
  assumes inv: "state_inv sm st" and run: "augment df sm2 st = (e, st')"
  shows "state_inv sm st'"
  using inv augment_primary[OF run] by (simp add: state_inv_def partition_ok_def)

lemma reachable_inv:
  assumes wf: "wellformed sm" and t: "t \<le> 1" and r: "reachable sm t st"
  shows "state_inv sm st"
  using r
proof induction
  case (created d st)
  with init_result[OF wf t, of d] show ?case by auto
next
  case (reassigned st st')
  with reassign_inv[OF wf] show ?case by blast
next
  case (sorted st st')
  with sort'_inv show ?case by blast
next
  case (truncated st k st')
  with truncate_inv[OF wf] show ?case by blast
next
  case (augmented st df sm2 e st')
  with augment_inv show ?case by blast
qed

section \<open>The invariants of reachable objects\<close>

lemma swap_simmat_wellformed: "wellformed swap_simmat"
  by (simp add: wellformed_def swap_simmat_def All_less_Suc)

lemma swap_sorted_reachable: "reachable swap_simmat (1/2) swap_sorted"
  by (rule reachable.sorted[OF reachable.reassigned[OF reachable.created[OF swap_created_eval]
        swap_reassigned_eval] swap_sorted_eval])

text \<open>
  Claim C1.  Let the similarity matrix be well-formed (square, symmetric, entries in
  $[0,1]$, diagonal 1) with $N$ rows and let the threshold be at most 1.  Every object
  obtained from the constructor by any sequence of completed calls of
  \<^const>\<open>reassign\<close>, \<^const>\<open>sort'\<close>, \<^const>\<open>truncate\<close> and \<^const>\<open>augment\<close> has member
  sets that form an exact partition of $\{0,\dots,N-1\}$: the map has $N$ entries, every
  index lies in exactly one member set, the member sets have no repetitions and hold
  only indices below $N$, and index $i$ is a member of class $c+1$ exactly when the map
  holds $c+1$ at $i$.
\<close>

theorem partition_invariant:
  assumes "wellformed sm" and "t \<le> 1" and "reachable sm t st"
  shows "exact_partition (length sm) (members st) (map' st)"
proof -
  from reachable_inv[OF assms] have "simmat st = sm" "partition_ok st"
    by (simp_all add: state_inv_def)
  with partition_ok_exact[of st] show ?thesis by simp
qed

theorem partition_invariant_witness:
  "wellformed swap_simmat \<and> reachable swap_simmat (1/2) swap_sorted \<and>
   exact_partition 4 (members swap_sorted) (map' swap_sorted)"
proof -
  have len: "length swap_simmat = 4" by (simp add: swap_simmat_def)
  have "exact_partition 4 (members swap_sorted) (map' swap_sorted)"
    using partition_invariant[OF swap_simmat_wellformed _ swap_sorted_reachable, of]
    unfolding len by simp
  with swap_simmat_wellformed swap_sorted_reachable show ?thesis by simp
qed

text \<open>
  Claim C5.  On a reachable object over a well-formed matrix with $K$ prototypes, and
  for $1 \le k \le K$, the call \<open>truncate(k)\<close> completes; afterwards the prototype
  sequence is the first $k$ entries of the previous one, there are exactly $k$
  prototypes, $k$ member sets and $k$ index entries, and the member sets are an exact
  partition of the $N$ indices.
\<close>

theorem truncate_keeps_prefix:
  assumes wf: "wellformed sm" and t: "t \<le> 1" and r: "reachable sm t st"
    and k1: "1 \<le> k" and kK: "k \<le> int (length (prototypes st))"
  shows "\<exists>st'. truncate k st = Inr st' \<and>
               prototypes st' = take (nat k) (prototypes st) \<and>
               length (prototypes st') = nat k \<and> length (members st') = nat k \<and>
               length (index st') = nat k \<and>
               exact_partition (length sm) (members st') (map' st')"
proof -
  have inv: "state_inv sm st" by (rule reachable_inv[OF wf t r])
  have sl: "slice_to (prototypes st) k = take (nat k) (prototypes st)"
    using k1 by (simp add: slice_to_def)
  have len: "length (take (nat k) (prototypes st)) = nat k" using k1 kK by simp
  have ne: "slice_to (prototypes st) k \<noteq> []"
  proof
    assume a: "slice_to (prototypes st) k = []"
    have "length (slice_to (prototypes st) k) = 0" by (simp only: a list.size)
    then have "nat k = 0" using len[folded sl] by linarith
    with k1 show False by linarith
  qed
  obtain st' where run: "truncate k st = Inr st'" and inv': "state_inv sm st'"
    and ps: "prototypes st' = slice_to (prototypes st) k"
    by (rule truncate_success[OF wf inv ne])
  from inv' have sm: "simmat st' = sm" and pok: "partition_ok st'"
    and lp: "length (prototypes st') = length (members st')"
    and im: "map c_members (index st') = members st'"
    by (simp_all add: state_inv_def)
  have l1: "length (prototypes st') = nat k" unfolding ps sl by (rule len)
  have l2: "length (members st') = nat k" using lp l1 by simp
  have l3: "length (index st') = nat k" using arg_cong[OF im, of length] l2 by simp
  have ex: "exact_partition (length sm) (members st') (map' st')"
    using partition_ok_exact[OF pok] sm by simp
  have "truncate k st = Inr st' \<and>
               prototypes st' = take (nat k) (prototypes st) \<and>
               length (prototypes st') = nat k \<and> length (members st') = nat k \<and>
               length (index st') = nat k \<and>
               exact_partition (length sm) (members st') (map' st')"
    using run ps sl l1 l2 l3 ex by simp
  then show ?thesis by (rule exI)
qed

theorem truncate_keeps_prefix_witness:
  "\<exists>st'. truncate 1 swap_sorted = Inr st' \<and> prototypes st' = [0] \<and>
         length (members st') = 1 \<and> length (index st') = 1 \<and>
         exact_partition 4 (members st') (map' st')"
proof -
  have len: "length swap_simmat = 4" by (simp add: swap_simmat_def)
  have k: "(1::int) \<le> int (length (prototypes swap_sorted))"
    by (simp add: swap_sorted_def swap_created_def)
  have ps: "take (nat 1) (prototypes swap_sorted) = [0]"
    by (simp add: swap_sorted_def swap_created_def)
  from truncate_keeps_prefix[OF swap_simmat_wellformed _ swap_sorted_reachable _ k]
  obtain st' where "truncate 1 swap_sorted = Inr st'"
    "prototypes st' = take (nat 1) (prototypes swap_sorted)"
    "length (members st') = nat 1" "length (index st') = nat 1"
    "exact_partition (length swap_simmat) (members st') (map' st')"
    by auto
  then have "truncate 1 swap_sorted = Inr st' \<and> prototypes st' = [0] \<and>
         length (members st') = 1 \<and> length (index st') = 1 \<and>
         exact_partition 4 (members st') (map' st')"
    unfolding ps len by simp
  then show ?thesis by (rule exI)
qed

text \<open>
  Claim C10.  For a well-formed matrix and a threshold at most 1 the greedy pass
  returns, and so does the constructor, with the same map, prototypes and member sets.
  Either the result is a partition whose class sizes are non-increasing in discovery
  order (for classes $c < c'$ the member set of $c'$ is no larger than that of $c$), or
  the class number no longer fits the 16-bit map, which needs more than 32767 points.
\<close>

theorem greedy_sizes_nonincreasing:
  assumes "wellformed sm" and "t \<le> 1"
  shows "(\<exists>st. simClassMap_init d sm t = Some (Inr st) \<and>
               PSP sm t = Some (Inr (map' st, prototypes st, members st)) \<and>
               (\<forall>c c'. c < c' \<and> c' < length (members st) \<longrightarrow>
                  length (members st ! c') \<le> length (members st ! c))) \<or>
         (simClassMap_init d sm t = Some (Inl OverflowError) \<and>
          PSP sm t = Some (Inl OverflowError) \<and> 32767 < length sm)"
proof -
  from init_result[OF assms, of d] consider
      (ok) st where "simClassMap_init d sm t = Some (Inr st)"
        "sorted_wrt (\<ge>) (map length (members st))"
        "PSP sm t = Some (Inr (map' st, prototypes st, members st))"
    | (ovf) "simClassMap_init d sm t = Some (Inl OverflowError)"
        "PSP sm t = Some (Inl OverflowError)" "32767 < length sm"
    by blast
  then show ?thesis
  proof cases
    case ok
    have "\<forall>c c'. c < c' \<and> c' < length (members st) \<longrightarrow>
                  length (members st ! c') \<le> length (members st ! c)"
    proof (intro allI impI)
      fix c c' assume a: "c < c' \<and> c' < length (members st)"
      then have "c < c'" "c' < length (map length (members st))" by simp_all
      from sorted_wrt_nth_less[OF ok(2) this] a
      show "length (members st ! c') \<le> length (members st ! c)" by simp
    qed
    with ok(1,3) show ?thesis by blast
  next
    case ovf
    then show ?thesis by blast
  qed
qed

theorem greedy_sizes_nonincreasing_witness:
  "simClassMap_init ([]::unit list) swap_simmat (1/2) = Some (Inr swap_created) \<and>
   length (members swap_created ! 1) \<le> length (members swap_created ! 0)"
proof -
  from greedy_sizes_nonincreasing[OF swap_simmat_wellformed, of "1/2" "[]::unit list"]
  have "\<forall>c c'. c < c' \<and> c' < length (members swap_created) \<longrightarrow>
          length (members swap_created ! c') \<le> length (members swap_created ! c)"
    by (simp add: swap_created_eval)
  then have "length (members swap_created ! 1) \<le> length (members swap_created ! 0)"
    by (simp add: swap_created_def)
  with swap_created_eval show ?thesis by simp
qed

section \<open>The claims settled by evaluation\<close>

text \<open>
  C9. For the four-point scenario and the threshold 0.5 the greedy pass finds two
  classes: class 1 with prototype 0 and members 0 and 1, class 2 with prototype 2 and
  members 2 and 3, and the assignment map is 1, 1, 2, 2. Both \<^verbatim>\<open>PSP\<close> and the
  constructor return this.
\<close>

theorem scenario_partition:
  "PSP scenario_simmat (1/2) = Some (Inr ([1, 1, 2, 2], [0, 2], [[0, 1], [2, 3]])) \<and>
   simClassMap_init d scenario_simmat (1/2) =
     Some (Inr \<lparr>thresh = 1/2, data = d, simmat = scenario_simmat, prototypes = [0, 2],
                members = [[0, 1], [2, 3]], map' = [1, 1, 2, 2], totalcount = 4,
                index = [\<lparr>c_class = 1, c_prototype = 0, c_count = 2, c_members = [0, 1],
                           c_fraction = 1/2\<rparr>,
                         \<lparr>c_class = 2, c_prototype = 2, c_count = 2, c_members = [2, 3],
                           c_fraction = 1/2\<rparr>],
                data2 = None, simmat2 = None, prototypes2 = None, map2 = None,
                totalcount2 = None, members2 = None, index2 = None\<rparr>)"
  by (simp add: scenario_simmat_def greedy_eval)

text \<open>
  C2, at an input where the claim fails. After the greedy pass and \<^verbatim>\<open>reassign\<close> on
  \<open>swap_simmat\<close> the classes have 1 and 3 members. \<^verbatim>\<open>sort\<close> renumbers them (the map
  becomes 2, 1, 1, 1 and the entry of prototype 3 comes first), but the prototype
  sequence stays 0, 3: entry 0 is not the prototype of the class now numbered 1.
\<close>

theorem sort_keeps_prototype_order:
  "simClassMap_init [] swap_simmat (1/2) = Some (Inr swap_created) \<and>
   reassign swap_created = Inr swap_reassigned \<and>
   sort' swap_reassigned = Inr swap_sorted \<and>
   map c_count (index swap_sorted) = [3, 1] \<and>
   map' swap_sorted = [2, 1, 1, 1] \<and>
   map c_prototype (index swap_sorted) = [3, 0] \<and>
   prototypes swap_sorted = [0, 3]"
  by (simp add: swap_created_eval swap_reassigned_eval swap_sorted_eval)
     (simp add: swap_sorted_def swap_created_def)

text \<open>
  C3, at an input where the claim fails. Two rows that both belong to the only class:
  the map is 1, 1, the member tuple of class 1 holds the rows 0 and 1, but the count of
  the entry is the length of the tuple, 1, and the fraction is 1/2.
\<close>

theorem augment_counts_the_tuple:
  "augment [x, y] [[1], [1/2]] st =
     (None, st\<lparr>data2 := Some [x, y], simmat2 := Some [[1], [1/2]], prototypes2 := Some [0],
               map2 := Some [1, 1], totalcount2 := Some 2, members2 := Some [[[0, 1]]],
               index2 := Some [\<lparr>c_class = 1, c_prototype = 0, c_count = 1,
                                 c_members = [[0, 1]], c_fraction = 1/2\<rparr>]\<rparr>)"
  by (simp add: method_eval)


end
